theory Spec2Isabelle
  imports Main "HOL-Library.AList" "HOL-Library.Log_Nat" "HOL-Library.Multiset"
    "HOL-Library.Sublist"
begin

section \<open>Host values\<close>

text \<open>
  The solver is JavaScript. Its numbers are IEEE binary64 values: a finite value is kept
  as the rational it denotes, the negative zero apart.
\<close>

datatype double = Fin rat | NegZero | PosInf | NegInf | NaN

datatype jsval = JNumber double | JOther

text \<open>\<open>Number.isFinite\<close>: false for every value that is not a number.\<close>

fun isFiniteDouble :: "double \<Rightarrow> bool" where
  "isFiniteDouble (Fin _) = True"
| "isFiniteDouble NegZero = True"
| "isFiniteDouble _ = False"

fun Number_isFinite :: "jsval \<Rightarrow> bool" where
  "Number_isFinite (JNumber d) = isFiniteDouble d"
| "Number_isFinite JOther = False"

text \<open>The rational a finite double denotes (both zeros denote 0).\<close>

fun ratOf :: "double \<Rightarrow> rat" where
  "ratOf (Fin q) = q"
| "ratOf _ = 0"

text \<open>\<open>===\<close> on numbers: \<open>NaN\<close> equals nothing, the two zeros are equal.\<close>

fun doubleEq :: "double \<Rightarrow> double \<Rightarrow> bool" where
  "doubleEq NaN _ = False"
| "doubleEq _ NaN = False"
| "doubleEq PosInf b = (b = PosInf)"
| "doubleEq NegInf b = (b = NegInf)"
| "doubleEq a PosInf = False"
| "doubleEq a NegInf = False"
| "doubleEq a b = (ratOf a = ratOf b)"

fun strictEq :: "jsval \<Rightarrow> jsval \<Rightarrow> bool" where
  "strictEq (JNumber a) (JNumber b) = doubleEq a b"
| "strictEq _ _ = False"

subsection \<open>Rounding to binary64\<close>

definition pow2 :: "int \<Rightarrow> rat" where
  "pow2 k = (if 0 \<le> k then 2 ^ nat k else 1 / 2 ^ nat (- k))"

text \<open>For \<open>a > 0\<close>, the exponent \<open>e\<close> with \<open>2^e \<le> a < 2^(e+1)\<close>.\<close>

definition floorLog2 :: "rat \<Rightarrow> int" where
  "floorLog2 a =
     (let (p, q) = quotient_of a;
          e0 = bitlen p - bitlen q
      in if pow2 e0 \<le> a then e0 else e0 - 1)"

text \<open>Round half to even, on a non-negative rational.\<close>

definition roundHalfEven :: "rat \<Rightarrow> int" where
  "roundHalfEven x =
     (let f = \<lfloor>x\<rfloor>; r = x - of_int f
      in if r < 1 / 2 then f
         else if 1 / 2 < r then f + 1
         else if even f then f else f + 1)"

text \<open>
  The binary64 value nearest to a non-zero rational (ties to even): 53 significant bits,
  the least exponent -1022 (below it the values are subnormal), overflow to an infinity.
  A result that rounds to zero keeps the sign of the exact value.
\<close>

definition roundBinary64 :: "rat \<Rightarrow> double" where
  "roundBinary64 q =
     (let a = \<bar>q\<bar>;
          e = max (floorLog2 a) (- 1022);
          ulp = pow2 (e - 52);
          r = of_int (roundHalfEven (a / ulp)) * ulp
      in if pow2 1024 \<le> r then (if q < 0 then NegInf else PosInf)
         else if r = 0 then (if q < 0 then NegZero else Fin 0)
         else Fin (if q < 0 then - r else r))"

text \<open>
  The double of an exact value. An integer of magnitude at most \<open>2^53\<close> is a binary64
  value and rounds to itself; the first branch says so without going through the
  rounding.
\<close>

definition toDouble :: "rat \<Rightarrow> double" where
  "toDouble q =
     (if of_int \<lfloor>q\<rfloor> = q \<and> \<bar>q\<bar> \<le> 2 ^ 53 then Fin q else roundBinary64 q)"

text \<open>The same, with the bound written out, for evaluation.\<close>

lemma toDouble_code [code]:
  "toDouble q =
     (if of_int \<lfloor>q\<rfloor> = q \<and> \<bar>q\<bar> \<le> 9007199254740992 then Fin q else roundBinary64 q)"
  by (simp add: toDouble_def)

section \<open>Strings\<close>

definition isDigit :: "char \<Rightarrow> bool" where
  "isDigit c = (c \<in> set ''0123456789'')"

definition isOperator :: "char \<Rightarrow> bool" where
  "isOperator c = (c \<in> set ''+-*/'')"

definition digitVal :: "char \<Rightarrow> int" where
  "digitVal c = of_char c - 48"

text \<open>The value of a string of decimal digits.\<close>

definition decimalValue :: "string \<Rightarrow> int" where
  "decimalValue ds = fold (\<lambda>c n. 10 * n + digitVal c) ds 0"

text \<open>\<open>s[i]\<close>: \<open>undefined\<close> (here \<open>None\<close>) outside the string.\<close>

definition charAt :: "'a list \<Rightarrow> nat \<Rightarrow> 'a option" where
  "charAt s i = (if i < length s then Some (s ! i) else None)"

text \<open>\<open>s.split(sep)\<close> for a one-character separator.\<close>

fun split_on :: "char \<Rightarrow> string \<Rightarrow> string list" where
  "split_on sep [] = [[]]"
| "split_on sep (c # cs) =
     (if c = sep then [] # split_on sep cs
      else (case split_on sep cs of
              [] \<Rightarrow> [[c]]
            | p # ps \<Rightarrow> (c # p) # ps))"

text \<open>
  \<open>parseInt(right, 10)\<close> on a string that matches \<open>/^-?\d+$/\<close>: the integer, rounded to
  a double; \<open>"-0"\<close> gives the negative zero.
\<close>

definition parseInt :: "string \<Rightarrow> double" where
  "parseInt s =
     (case s of
        CHR ''-'' # ds \<Rightarrow>
          (if decimalValue ds = 0 then NegZero else toDouble (- of_int (decimalValue ds)))
      | _ \<Rightarrow> toDouble (of_int (decimalValue s)))"

section \<open>The equation validator\<close>

text \<open>
  \<open>isValidEquation\<close> (src/app.js 887-932, the same text as src/solver.js 9-54). The
  left side is evaluated by the host, \<open>Function('return ' + left)()\<close>: \<open>ev left\<close> is
  \<open>None\<close> when that call throws, else the value it returns. The validator has no access
  to the session length.
\<close>

definition matchesAlphabet :: "string \<Rightarrow> bool" where
  "matchesAlphabet s = (s \<noteq> [] \<and> list_all (\<lambda>c. c \<in> set ''0123456789+-*/='') s)"

definition matchesSignedDigits :: "string \<Rightarrow> bool" where
  "matchesSignedDigits s =
     (case s of
        CHR ''-'' # ds \<Rightarrow> ds \<noteq> [] \<and> list_all isDigit ds
      | _ \<Rightarrow> s \<noteq> [] \<and> list_all isDigit s)"

definition matchesLeftChars :: "string \<Rightarrow> bool" where
  "matchesLeftChars s = (s \<noteq> [] \<and> list_all (\<lambda>c. c \<in> set ''0123456789+-*/'') s)"

definition isValidEquation :: "(string \<Rightarrow> jsval option) \<Rightarrow> string \<Rightarrow> bool" where
  "isValidEquation ev expr =
     (if expr = [] \<or> length expr < 5 then False
      else if \<not> matchesAlphabet expr then False
      else if count_list expr CHR ''='' \<noteq> 1 then False
      else if charAt expr 0 = Some CHR ''='' \<or> charAt expr (length expr - 1) = Some CHR ''=''
        then False
      else (case split_on CHR ''='' expr of
              [left, right] \<Rightarrow>
                if left = [] \<or> right = [] then False
                else if \<not> matchesSignedDigits right then False
                else if charAt left 0 = Some CHR ''*'' \<or> charAt left 0 = Some CHR ''/'' then False
                else if \<not> matchesLeftChars left then False
                else (case ev left of
                        None \<Rightarrow> False
                      | Some leftValue \<Rightarrow>
                          let rightValue = JNumber (parseInt right)
                          in if \<not> Number_isFinite leftValue \<or> \<not> Number_isFinite rightValue
                             then False
                             else strictEq leftValue rightValue)
            | _ \<Rightarrow> False))"

section \<open>A model of the host's evaluation\<close>

text \<open>
  \<open>Function('return ' + left)()\<close> for a source text over the fourteen characters the
  validator lets through (digits and the four operators), as ECMAScript reads it in
  sloppy mode: numeric literals (a leading zero makes a legacy octal literal when every
  digit is below 8), the operators \<open>+ - * / **\<close>, the tokens \<open>++\<close> and \<open>--\<close> (which
  need an assignable operand, and no such operand can be written here), comments, and
  regular expression literals.
\<close>

subsection \<open>Arithmetic on doubles\<close>

fun isNeg :: "double \<Rightarrow> bool" where
  "isNeg (Fin q) = (q < 0)"
| "isNeg NegZero = True"
| "isNeg NegInf = True"
| "isNeg _ = False"

fun isZero :: "double \<Rightarrow> bool" where
  "isZero (Fin q) = (q = 0)"
| "isZero NegZero = True"
| "isZero _ = False"

fun isInf :: "double \<Rightarrow> bool" where
  "isInf PosInf = True"
| "isInf NegInf = True"
| "isInf _ = False"

fun dneg :: "double \<Rightarrow> double" where
  "dneg (Fin q) = (if q = 0 then NegZero else Fin (- q))"
| "dneg NegZero = Fin 0"
| "dneg PosInf = NegInf"
| "dneg NegInf = PosInf"
| "dneg NaN = NaN"

definition signedInf :: "bool \<Rightarrow> double" where
  "signedInf neg = (if neg then NegInf else PosInf)"

definition signedZero :: "bool \<Rightarrow> double" where
  "signedZero neg = (if neg then NegZero else Fin 0)"

definition dadd :: "double \<Rightarrow> double \<Rightarrow> double" where
  "dadd a b =
     (if a = NaN \<or> b = NaN then NaN
      else if isInf a \<and> isInf b then (if a = b then a else NaN)
      else if isInf a then a
      else if isInf b then b
      else if a = NegZero \<and> b = NegZero then NegZero
      else toDouble (ratOf a + ratOf b))"

definition dsub :: "double \<Rightarrow> double \<Rightarrow> double" where
  "dsub a b = dadd a (dneg b)"

definition dmul :: "double \<Rightarrow> double \<Rightarrow> double" where
  "dmul a b =
     (if a = NaN \<or> b = NaN then NaN
      else if (isInf a \<and> isZero b) \<or> (isZero a \<and> isInf b) then NaN
      else if isInf a \<or> isInf b then signedInf (isNeg a \<noteq> isNeg b)
      else if isZero a \<or> isZero b then signedZero (isNeg a \<noteq> isNeg b)
      else toDouble (ratOf a * ratOf b))"

definition ddiv :: "double \<Rightarrow> double \<Rightarrow> double" where
  "ddiv a b =
     (if a = NaN \<or> b = NaN then NaN
      else if (isInf a \<and> isInf b) \<or> (isZero a \<and> isZero b) then NaN
      else if isInf a \<or> isZero b then signedInf (isNeg a \<noteq> isNeg b)
      else if isInf b \<or> isZero a then signedZero (isNeg a \<noteq> isNeg b)
      else toDouble (ratOf a / ratOf b))"

definition isOddInteger :: "double \<Rightarrow> bool" where
  "isOddInteger d = (case d of Fin q \<Rightarrow> of_int \<lfloor>q\<rfloor> = q \<and> odd \<lfloor>q\<rfloor> | _ \<Rightarrow> False)"

definition isInteger :: "double \<Rightarrow> bool" where
  "isInteger d = (case d of Fin q \<Rightarrow> of_int \<lfloor>q\<rfloor> = q | NegZero \<Rightarrow> True | _ \<Rightarrow> False)"

text \<open>
  \<open>Number::exponentiate\<close>. ECMAScript fixes the result in the cases listed and leaves the
  rest (a finite non-zero base and exponent) to the implementation, which returns an
  approximation: \<open>approx\<close> is that part of the host.
\<close>

definition dpow :: "(rat \<Rightarrow> rat \<Rightarrow> double) \<Rightarrow> double \<Rightarrow> double \<Rightarrow> double" where
  "dpow approx b e =
     (if e = NaN then NaN
      else if isZero e then Fin 1
      else if b = NaN then NaN
      else if b = PosInf then (if isNeg e then Fin 0 else PosInf)
      else if b = NegInf then
        (if isNeg e then signedZero (isOddInteger e) else signedInf (isOddInteger e))
      else if b = Fin 0 then (if isNeg e then PosInf else Fin 0)
      else if b = NegZero then
        (if isNeg e then signedInf (isOddInteger e) else signedZero (isOddInteger e))
      else if e = PosInf then
        (if 1 < \<bar>ratOf b\<bar> then PosInf else if \<bar>ratOf b\<bar> = 1 then NaN else Fin 0)
      else if e = NegInf then
        (if 1 < \<bar>ratOf b\<bar> then Fin 0 else if \<bar>ratOf b\<bar> = 1 then NaN else PosInf)
      else if isNeg b \<and> \<not> isInteger e then NaN
      else approx (ratOf b) (ratOf e))"

subsection \<open>Values\<close>

text \<open>
  A value that is not a number is a regular expression object or a string made from
  one. Such a string always holds a \<open>/\<close>, so its conversion to a number is \<open>NaN\<close>, and
  \<open>+\<close> with it concatenates strings.
\<close>

fun toNumber :: "jsval \<Rightarrow> double" where
  "toNumber (JNumber d) = d"
| "toNumber JOther = NaN"

fun jsAdd :: "jsval \<Rightarrow> jsval \<Rightarrow> jsval" where
  "jsAdd (JNumber a) (JNumber b) = JNumber (dadd a b)"
| "jsAdd _ _ = JOther"

definition jsArith :: "(double \<Rightarrow> double \<Rightarrow> double) \<Rightarrow> jsval \<Rightarrow> jsval \<Rightarrow> jsval" where
  "jsArith f a b = JNumber (f (toNumber a) (toNumber b))"

subsection \<open>Tokens\<close>

datatype token = TNum double | TRegex | TPlus | TMinus | TStar | TSlash | TStarStar

definition octalValue :: "string \<Rightarrow> int" where
  "octalValue ds = fold (\<lambda>c n. 8 * n + digitVal c) ds 0"

definition numericLiteral :: "string \<Rightarrow> double" where
  "numericLiteral ds =
     (if 1 < length ds \<and> charAt ds 0 = Some CHR ''0'' \<and> list_all (\<lambda>c. c \<in> set ''01234567'') ds
      then toDouble (of_int (octalValue ds))
      else toDouble (of_int (decimalValue ds)))"

text \<open>The text after the \<open>*/\<close> that closes a comment, if there is one.\<close>

fun afterCommentEnd :: "string \<Rightarrow> string option" where
  "afterCommentEnd [] = None"
| "afterCommentEnd (c # cs) =
     (case cs of
        d # r \<Rightarrow> if c = CHR ''*'' \<and> d = CHR ''/'' then Some r else afterCommentEnd cs
      | [] \<Rightarrow> None)"

text \<open>
  The body of a regular expression literal over these characters is a pattern when no
  quantifier (\<open>+\<close>, \<open>*\<close>) comes first or follows another quantifier.
\<close>

fun validRegexBody :: "bool \<Rightarrow> string \<Rightarrow> bool" where
  "validRegexBody afterAtom [] = True"
| "validRegexBody afterAtom (c # cs) =
     (if c = CHR ''+'' \<or> c = CHR ''*'' then afterAtom \<and> validRegexBody False cs
      else validRegexBody True cs)"

lemma afterCommentEnd_shorter: "afterCommentEnd cs = Some r \<Longrightarrow> length r < length cs"
  by (induction cs rule: afterCommentEnd.induct) (auto split: list.splits if_splits)

lemma dropWhile_Cons_shorter: "dropWhile P cs = x # r \<Longrightarrow> length r < length cs"
  using length_dropWhile_le[of P cs] by simp

text \<open>
  The tokens of a source text, \<open>None\<close> for a text that is a SyntaxError already by its
  tokens. \<open>re\<close> says whether a \<open>/\<close> starts a regular expression literal here (at the start
  and after an operator) or divides (after a literal).
\<close>

function lexer :: "bool \<Rightarrow> string \<Rightarrow> token list option" where
  "lexer re [] = Some []"
| "lexer re (c # cs) =
     (if isDigit c then
        map_option (Cons (TNum (numericLiteral (c # takeWhile isDigit cs))))
          (lexer False (dropWhile isDigit cs))
      else if c = CHR ''/'' then
        (case cs of
           CHR ''/'' # _ \<Rightarrow> Some []
         | CHR ''*'' # r \<Rightarrow>
             (case afterCommentEnd r of None \<Rightarrow> None | Some r' \<Rightarrow> lexer re r')
         | _ \<Rightarrow>
             if re then
               (case dropWhile (\<lambda>x. x \<noteq> CHR ''/'') cs of
                  [] \<Rightarrow> None
                | _ # after \<Rightarrow>
                    if \<not> validRegexBody False (takeWhile (\<lambda>x. x \<noteq> CHR ''/'') cs) then None
                    else if (case after of d # _ \<Rightarrow> isDigit d | [] \<Rightarrow> False) then None
                    else map_option (Cons TRegex) (lexer False after))
             else map_option (Cons TSlash) (lexer True cs))
      else if c = CHR ''+'' then
        (case cs of
           CHR ''+'' # _ \<Rightarrow> None
         | _ \<Rightarrow> map_option (Cons TPlus) (lexer True cs))
      else if c = CHR ''-'' then
        (case cs of
           CHR ''-'' # _ \<Rightarrow> None
         | _ \<Rightarrow> map_option (Cons TMinus) (lexer True cs))
      else if c = CHR ''*'' then
        (case cs of
           CHR ''*'' # r \<Rightarrow> map_option (Cons TStarStar) (lexer True r)
         | _ \<Rightarrow> map_option (Cons TStar) (lexer True cs))
      else None)"
  by pat_completeness auto
termination
  by (relation "measure (\<lambda>(re, s). length s)")
     (auto simp: less_Suc_eq_le length_dropWhile_le
           dest: afterCommentEnd_shorter dropWhile_Cons_shorter)

subsection \<open>Expressions\<close>

text \<open>
  The grammar, evaluated as it is parsed (evaluation has no effect and cannot throw):
  a unary expression is a literal under any number of signs; an exponentiation is a
  unary expression, or a literal, \<open>**\<close> and an exponentiation (a signed base is a
  SyntaxError: the \<open>**\<close> is left over); \<open>*\<close> and \<open>/\<close> associate to the left over
  exponentiations, \<open>+\<close> and \<open>-\<close> over those.
\<close>

fun parseUnary :: "token list \<Rightarrow> (jsval \<times> token list) option" where
  "parseUnary (TPlus # ts) =
     map_option (\<lambda>(v, r). (JNumber (toNumber v), r)) (parseUnary ts)"
| "parseUnary (TMinus # ts) =
     map_option (\<lambda>(v, r). (JNumber (dneg (toNumber v)), r)) (parseUnary ts)"
| "parseUnary (TNum d # ts) = Some (JNumber d, ts)"
| "parseUnary (TRegex # ts) = Some (JOther, ts)"
| "parseUnary _ = None"

fun parseExp :: "(rat \<Rightarrow> rat \<Rightarrow> double) \<Rightarrow> token list \<Rightarrow> (jsval \<times> token list) option" where
  "parseExp ap (TNum d # TStarStar # ts) =
     map_option (\<lambda>(e, r). (jsArith (dpow ap) (JNumber d) e, r)) (parseExp ap ts)"
| "parseExp ap (TRegex # TStarStar # ts) =
     map_option (\<lambda>(e, r). (jsArith (dpow ap) JOther e, r)) (parseExp ap ts)"
| "parseExp ap ts = parseUnary ts"

lemma parseUnary_shorter: "parseUnary ts = Some (v, r) \<Longrightarrow> length r < length ts"
  by (induction ts arbitrary: v r rule: parseUnary.induct) (auto split: prod.splits)

lemma parseExp_shorter: "parseExp ap ts = Some (v, r) \<Longrightarrow> length r < length ts"
  by (induction ap ts arbitrary: v r rule: parseExp.induct)
     (auto split: prod.splits dest: parseUnary_shorter less_SucI)

function (sequential) parseMulRest ::
  "(rat \<Rightarrow> rat \<Rightarrow> double) \<Rightarrow> jsval \<Rightarrow> token list \<Rightarrow> (jsval \<times> token list) option" where
  "parseMulRest ap acc (TStar # ts) =
     (case parseExp ap ts of
        None \<Rightarrow> None
      | Some (v, r) \<Rightarrow> parseMulRest ap (jsArith dmul acc v) r)"
| "parseMulRest ap acc (TSlash # ts) =
     (case parseExp ap ts of
        None \<Rightarrow> None
      | Some (v, r) \<Rightarrow> parseMulRest ap (jsArith ddiv acc v) r)"
| "parseMulRest ap acc ts = Some (acc, ts)"
  by pat_completeness auto
termination
  by (relation "measure (\<lambda>(ap, acc, ts). length ts)")
     (auto dest: parseExp_shorter less_SucI)

definition parseMul :: "(rat \<Rightarrow> rat \<Rightarrow> double) \<Rightarrow> token list \<Rightarrow> (jsval \<times> token list) option" where
  "parseMul ap ts =
     (case parseExp ap ts of None \<Rightarrow> None | Some (v, r) \<Rightarrow> parseMulRest ap v r)"

lemma parseMulRest_le: "parseMulRest ap acc ts = Some (v, r) \<Longrightarrow> length r \<le> length ts"
  by (induction ap acc ts arbitrary: v r rule: parseMulRest.induct)
     (fastforce split: option.splits prod.splits dest: parseExp_shorter)+

lemma parseMul_shorter: "parseMul ap ts = Some (v, r) \<Longrightarrow> length r < length ts"
  by (fastforce simp: parseMul_def split: option.splits prod.splits
        dest: parseExp_shorter parseMulRest_le)

function (sequential) parseAddRest ::
  "(rat \<Rightarrow> rat \<Rightarrow> double) \<Rightarrow> jsval \<Rightarrow> token list \<Rightarrow> (jsval \<times> token list) option" where
  "parseAddRest ap acc (TPlus # ts) =
     (case parseMul ap ts of
        None \<Rightarrow> None
      | Some (v, r) \<Rightarrow> parseAddRest ap (jsAdd acc v) r)"
| "parseAddRest ap acc (TMinus # ts) =
     (case parseMul ap ts of
        None \<Rightarrow> None
      | Some (v, r) \<Rightarrow> parseAddRest ap (jsArith dsub acc v) r)"
| "parseAddRest ap acc ts = Some (acc, ts)"
  by pat_completeness auto
termination
  by (relation "measure (\<lambda>(ap, acc, ts). length ts)")
     (auto dest: parseMul_shorter less_SucI)

definition parseAdd :: "(rat \<Rightarrow> rat \<Rightarrow> double) \<Rightarrow> token list \<Rightarrow> (jsval \<times> token list) option" where
  "parseAdd ap ts =
     (case parseMul ap ts of None \<Rightarrow> None | Some (v, r) \<Rightarrow> parseAddRest ap v r)"

text \<open>
  The call: \<open>None\<close> when it throws (a SyntaxError; nothing else can be thrown), else the
  value returned. A text that is all comment returns \<open>undefined\<close>.
\<close>

definition jsReturn :: "(rat \<Rightarrow> rat \<Rightarrow> double) \<Rightarrow> string \<Rightarrow> jsval option" where
  "jsReturn ap src =
     (case lexer True src of
        None \<Rightarrow> None
      | Some [] \<Rightarrow> Some JOther
      | Some ts \<Rightarrow>
          (case parseAdd ap ts of
             Some (v, []) \<Rightarrow> Some v
           | _ \<Rightarrow> None))"

section \<open>Constraint sets\<close>

text \<open>
  The constraint object of the solver. \<open>requiredCounts\<close> is iterated by the search
  (\<open>Object.entries\<close>), so it is kept as its list of entries; the other objects are only
  looked up. Counts are JavaScript numbers holding integers.
\<close>

record constraints =
  greens :: "char option list"
  requiredCounts :: "(char \<times> int) list"
  maxCounts :: "char \<rightharpoonup> int"
  excluded :: "char set"
  yellowForbiddenPositions :: "char \<rightharpoonup> nat set"

text \<open>\<open>constraints.greens[pos]\<close>: a hole or an index past the end reads as \<open>undefined\<close>.\<close>

definition greenAt :: "constraints \<Rightarrow> nat \<Rightarrow> char option" where
  "greenAt c pos = (case charAt (greens c) pos of Some (Some ch) \<Rightarrow> Some ch | _ \<Rightarrow> None)"

text \<open>\<open>constraints.yellowForbiddenPositions[ch]?.has(pos)\<close>\<close>

definition forbiddenAt :: "constraints \<Rightarrow> char \<Rightarrow> nat \<Rightarrow> bool" where
  "forbiddenAt c ch pos =
     (case yellowForbiddenPositions c ch of None \<Rightarrow> False | Some ps \<Rightarrow> pos \<in> ps)"

text \<open>\<open>used[ch] || 0\<close>\<close>

definition usedCount :: "(char \<rightharpoonup> int) \<Rightarrow> char \<Rightarrow> int" where
  "usedCount used ch = (case used ch of None \<Rightarrow> 0 | Some n \<Rightarrow> n)"

text \<open>\<open>newUsed = {...used}; newUsed[ch] = (newUsed[ch] || 0) + 1\<close>\<close>

definition bumpUsed :: "(char \<rightharpoonup> int) \<Rightarrow> char \<Rightarrow> (char \<rightharpoonup> int)" where
  "bumpUsed used ch = used(ch \<mapsto> usedCount used ch + 1)"

text \<open>
  \<open>constraints.maxCounts[ch] && newUsed[ch] > constraints.maxCounts[ch]\<close>: an entry
  that is 0 is falsy, so it caps nothing.
\<close>

definition overMax :: "constraints \<Rightarrow> (char \<rightharpoonup> int) \<Rightarrow> char \<Rightarrow> bool" where
  "overMax c newUsed ch =
     (case maxCounts c ch of
        None \<Rightarrow> False
      | Some m \<Rightarrow> m \<noteq> 0 \<and> m < usedCount newUsed ch)"

text \<open>
  The sum, over the entries of \<open>requiredCounts\<close> that \<open>sel\<close> keeps, of what the tally
  still lacks.
\<close>

definition needCount :: "(char \<Rightarrow> bool) \<Rightarrow> constraints \<Rightarrow> (char \<rightharpoonup> int) \<Rightarrow> int" where
  "needCount sel c used =
     sum_list (map (\<lambda>(reqCh, minCount).
                  if sel reqCh \<and> usedCount used reqCh < minCount
                  then minCount - usedCount used reqCh else 0)
               (requiredCounts c))"

text \<open>The check at a leaf: every entry of \<open>requiredCounts\<close> is met by the tally.\<close>

definition requiredMet :: "constraints \<Rightarrow> (char \<rightharpoonup> int) \<Rightarrow> bool" where
  "requiredMet c used =
     list_all (\<lambda>(ch, minCount). \<not> usedCount used ch < minCount) (requiredCounts c)"

text \<open>\<open>'0123456789+-*/='.split('').filter(ch => !constraints.excluded.has(ch))\<close>\<close>

definition allowedChars :: "constraints \<Rightarrow> string" where
  "allowedChars c = filter (\<lambda>ch. ch \<notin> excluded c) ''0123456789+-*/=''"

section \<open>The candidate search\<close>

text \<open>
  The options of \<open>generateCandidates\<close>. \<open>maxResults\<close> and \<open>timeoutMs\<close> have
  defaults. \<open>cancelledRef\<close> is a cell the caller owns and may set while the search runs
  (from the progress callback, or between two slices of the asynchronous variant): it is
  given by the value \<open>dfs\<close> reads at its n-th entry; without it the search makes a cell of
  its own that nobody sets.
\<close>

record options =
  length_opt :: nat
  maxResults :: "int option"
  timeoutMs :: "int option"
  cancelledRef :: "(nat \<Rightarrow> bool) option"

text \<open>
  What the search reads from outside: the host's evaluation of a left side, and
  \<open>Date.now() - startTime\<close> at the n-th entry of \<open>dfs\<close>.
\<close>

record host =
  evalReturn :: "string \<Rightarrow> jsval option"
  elapsedMs :: "nat \<Rightarrow> int"

text \<open>
  What the search writes: the results found so far and the number of entries of
  \<open>dfs\<close> (\<open>dfsCallCount\<close>).
\<close>

record search_state =
  results :: "string list"
  dfsCallCount :: nat

definition cancelled :: "options \<Rightarrow> nat \<Rightarrow> bool" where
  "cancelled opts n = (case cancelledRef opts of None \<Rightarrow> False | Some flag \<Rightarrow> flag n)"

definition maxResultsOf :: "options \<Rightarrow> int" where
  "maxResultsOf opts = (case maxResults opts of None \<Rightarrow> 200 | Some m \<Rightarrow> m)"

subsection \<open>src/app.js 1530-1754\<close>

text \<open>\<open>timeoutMs = 0\<close> by default, and 0 means no timeout.\<close>

definition timedOut :: "host \<Rightarrow> options \<Rightarrow> nat \<Rightarrow> bool" where
  "timedOut h opts n =
     (let t = (case timeoutMs opts of None \<Rightarrow> 0 | Some t \<Rightarrow> t)
      in 0 < t \<and> t < elapsedMs h n)"

text \<open>\<open>lastChar = pos > 0 ? current[pos - 1] : null\<close>\<close>

definition lastChar :: "string \<Rightarrow> nat \<Rightarrow> char option" where
  "lastChar current pos = (if 0 < pos then charAt current (pos - 1) else None)"

definition lastIsOperator :: "string \<Rightarrow> nat \<Rightarrow> bool" where
  "lastIsOperator current pos =
     (case lastChar current pos of None \<Rightarrow> False | Some l \<Rightarrow> isOperator l)"

text \<open>
  The tests of the loop over \<open>allowedChars\<close> that end in \<open>continue\<close>, in the order of the
  source: adjacent operators, the place of the equals sign, the operators after it, the
  forbidden positions, the caps, and the room left for what is still required.
\<close>

definition skipAdjacent :: "string \<Rightarrow> nat \<Rightarrow> char \<Rightarrow> bool" where
  "skipAdjacent current pos ch =
     (case lastChar current pos of
        None \<Rightarrow> False
      | Some l \<Rightarrow>
          isOperator ch \<and> l \<in> set ''+-*/='' \<and>
          (ch \<noteq> CHR ''-'' \<or> (l = CHR ''-'' \<and> ch = CHR ''-'')))"

definition skipEquals :: "constraints \<Rightarrow> nat \<Rightarrow> nat \<Rightarrow> string \<Rightarrow> (char \<rightharpoonup> int) \<Rightarrow> bool \<Rightarrow> bool" where
  "skipEquals c len pos current used hasEqual =
     (lastIsOperator current pos \<or>
      hasEqual \<or> pos = 0 \<or> int pos = int len - 1 \<or>
      0 < needCount isOperator c used)"

definition skipChar ::
  "constraints \<Rightarrow> nat \<Rightarrow> nat \<Rightarrow> string \<Rightarrow> (char \<rightharpoonup> int) \<Rightarrow> bool \<Rightarrow> char \<Rightarrow> bool" where
  "skipChar c len pos current used hasEqual ch =
     (skipAdjacent current pos ch \<or>
      (ch = CHR ''='' \<and> skipEquals c len pos current used hasEqual) \<or>
      (hasEqual \<and> ch \<in> set ''*/+'') \<or>
      forbiddenAt c ch pos \<or>
      overMax c (bumpUsed used ch) ch \<or>
      int len - int pos - 1 < needCount (\<lambda>_. True) c (bumpUsed used ch))"

text \<open>
  \<open>dfs\<close>. The state is threaded through the loop. \<open>generateCandidates\<close> enters at
  position 0, and a call at \<open>pos < length\<close> recurses at \<open>pos + 1\<close>, so no call is made
  past \<open>length\<close>; the branch for it is there to make the function total.
\<close>

function dfs ::
  "host \<Rightarrow> constraints \<Rightarrow> options \<Rightarrow> nat \<Rightarrow> string \<Rightarrow> (char \<rightharpoonup> int) \<Rightarrow> bool
     \<Rightarrow> search_state \<Rightarrow> search_state" where
  "dfs h c opts pos current used hasEqual st =
     (let n = dfsCallCount st;
          st1 = st\<lparr>dfsCallCount := n + 1\<rparr>
      in if cancelled opts n then st1
         else if timedOut h opts n then st1
         else if maxResultsOf opts \<le> int (length (results st1)) then st1
         else if pos = length_opt opts then
           (if \<not> hasEqual then st1
            else if \<not> isValidEquation (evalReturn h) current then st1
            else if \<not> requiredMet c used then st1
            else st1\<lparr>results := results st1 @ [current]\<rparr>)
         else if length_opt opts < pos then st1
         else (case greenAt c pos of
                 Some ch \<Rightarrow>
                   if ch = CHR ''='' \<and> lastIsOperator current pos then st1
                   else if overMax c (bumpUsed used ch) ch then st1
                   else dfs h c opts (pos + 1) (current @ [ch]) (bumpUsed used ch)
                          (hasEqual \<or> ch = CHR ''='') st1
               | None \<Rightarrow>
                   fold (\<lambda>ch s.
                           if skipChar c (length_opt opts) pos current used hasEqual ch then s
                           else dfs h c opts (pos + 1) (current @ [ch]) (bumpUsed used ch)
                                  (hasEqual \<or> ch = CHR ''='') s)
                        (allowedChars c) st1))"
  by pat_completeness auto
termination
  by (relation "measure (\<lambda>(h, c, opts, pos, current, used, hasEqual, st). length_opt opts - pos)")
     auto

text \<open>
  \<open>scoreCandidate\<close>: 1.5 for each distinct character, less 1 for each operator. Every
  score is a multiple of one half, exact in binary64.
\<close>

definition scoreCandidate :: "string \<Rightarrow> rat" where
  "scoreCandidate expr =
     of_nat (card (set expr)) * (3 / 2) - of_nat (length (filter isOperator expr))"

text \<open>
  \<open>results.sort((a, b) => scoreCandidate(b) - scoreCandidate(a))\<close>: a stable sort, the
  higher score first.
\<close>

definition sortByScore :: "string list \<Rightarrow> string list" where
  "sortByScore rs = sort_key (\<lambda>s. - scoreCandidate s) rs"

definition generateCandidates :: "host \<Rightarrow> constraints \<Rightarrow> options \<Rightarrow> string list" where
  "generateCandidates h c opts =
     sortByScore
       (results (dfs h c opts 0 [] Map.empty False \<lparr>results = [], dfsCallCount = 0\<rparr>))"

subsection \<open>src/solver.js 239-348\<close>

text \<open>
  The search of src/solver.js tests the timeout together with the flag, with a default
  of 2000 ms and no special meaning for 0; it has no test on adjacent operators, and it
  keeps no count of its calls (the count in the state is the model's, to index what is
  read from outside).
\<close>

definition timedOut_solver :: "host \<Rightarrow> options \<Rightarrow> nat \<Rightarrow> bool" where
  "timedOut_solver h opts n =
     (let t = (case timeoutMs opts of None \<Rightarrow> 2000 | Some t \<Rightarrow> t)
      in t < elapsedMs h n)"

definition skipChar_solver ::
  "constraints \<Rightarrow> nat \<Rightarrow> nat \<Rightarrow> (char \<rightharpoonup> int) \<Rightarrow> bool \<Rightarrow> char \<Rightarrow> bool" where
  "skipChar_solver c len pos used hasEqual ch =
     ((ch = CHR ''='' \<and> (hasEqual \<or> pos = 0 \<or> int pos = int len - 1)) \<or>
      forbiddenAt c ch pos \<or>
      overMax c (bumpUsed used ch) ch \<or>
      int len - int pos - 1 < needCount (\<lambda>_. True) c (bumpUsed used ch))"

function dfs_solver ::
  "host \<Rightarrow> constraints \<Rightarrow> options \<Rightarrow> nat \<Rightarrow> string \<Rightarrow> (char \<rightharpoonup> int) \<Rightarrow> bool
     \<Rightarrow> search_state \<Rightarrow> search_state" where
  "dfs_solver h c opts pos current used hasEqual st =
     (let n = dfsCallCount st;
          st1 = st\<lparr>dfsCallCount := n + 1\<rparr>
      in if cancelled opts n \<or> timedOut_solver h opts n then st1
         else if maxResultsOf opts \<le> int (length (results st1)) then st1
         else if pos = length_opt opts then
           (if \<not> hasEqual then st1
            else if isValidEquation (evalReturn h) current then
              (if requiredMet c used then st1\<lparr>results := results st1 @ [current]\<rparr> else st1)
            else st1)
         else if length_opt opts < pos then st1
         else (case greenAt c pos of
                 Some ch \<Rightarrow>
                   if overMax c (bumpUsed used ch) ch then st1
                   else dfs_solver h c opts (pos + 1) (current @ [ch]) (bumpUsed used ch)
                          (hasEqual \<or> ch = CHR ''='') st1
               | None \<Rightarrow>
                   fold (\<lambda>ch s.
                           if skipChar_solver c (length_opt opts) pos used hasEqual ch then s
                           else dfs_solver h c opts (pos + 1) (current @ [ch]) (bumpUsed used ch)
                                  (hasEqual \<or> ch = CHR ''='') s)
                        (allowedChars c) st1))"
  by pat_completeness auto
termination
  by (relation "measure (\<lambda>(h, c, opts, pos, current, used, hasEqual, st). length_opt opts - pos)")
     auto

definition generateCandidates_solver :: "host \<Rightarrow> constraints \<Rightarrow> options \<Rightarrow> string list" where
  "generateCandidates_solver h c opts =
     sortByScore
       (results (dfs_solver h c opts 0 [] Map.empty False \<lparr>results = [], dfsCallCount = 0\<rparr>))"

subsection \<open>The search with a note of what it had found when the flag was seen\<close>

text \<open>
  To say what had been accepted when the cancellation was observed, the search is run
  with a note beside its state. The note is empty until a call of \<open>dfs\<close> reads the flag
  and finds it set; that call writes into it the results it was entered with, and no later
  call changes it. \<open>dfs_observed\<close> is \<open>dfs\<close> with the note carried along, and
  \<open>dfs_solver_observed\<close> is \<open>dfs_solver\<close> with it (there the one test of the flag and the
  timeout is written as two, the flag first, as \<open>||\<close> reads them): their first components
  are proved to be \<open>dfs\<close> and \<open>dfs_solver\<close> (\<open>dfs_observed_fst\<close>,
  \<open>dfs_solver_observed_fst\<close>).
\<close>

type_synonym observed_state = "search_state \<times> string list option"

definition observe :: "observed_state \<Rightarrow> string list option" where
  "observe p = (case snd p of None \<Rightarrow> Some (results (fst p)) | Some r \<Rightarrow> Some r)"

function dfs_observed ::
  "host \<Rightarrow> constraints \<Rightarrow> options \<Rightarrow> nat \<Rightarrow> string \<Rightarrow> (char \<rightharpoonup> int) \<Rightarrow> bool
     \<Rightarrow> observed_state \<Rightarrow> observed_state" where
  "dfs_observed h c opts pos current used hasEqual p =
     (let st = fst p;
          seen = snd p;
          n = dfsCallCount st;
          st1 = st\<lparr>dfsCallCount := n + 1\<rparr>
      in if cancelled opts n then (st1, observe p)
         else if timedOut h opts n then (st1, seen)
         else if maxResultsOf opts \<le> int (length (results st1)) then (st1, seen)
         else if pos = length_opt opts then
           (if \<not> hasEqual then (st1, seen)
            else if \<not> isValidEquation (evalReturn h) current then (st1, seen)
            else if \<not> requiredMet c used then (st1, seen)
            else (st1\<lparr>results := results st1 @ [current]\<rparr>, seen))
         else if length_opt opts < pos then (st1, seen)
         else (case greenAt c pos of
                 Some ch \<Rightarrow>
                   if ch = CHR ''='' \<and> lastIsOperator current pos then (st1, seen)
                   else if overMax c (bumpUsed used ch) ch then (st1, seen)
                   else dfs_observed h c opts (pos + 1) (current @ [ch]) (bumpUsed used ch)
                          (hasEqual \<or> ch = CHR ''='') (st1, seen)
               | None \<Rightarrow>
                   fold (\<lambda>ch s.
                           if skipChar c (length_opt opts) pos current used hasEqual ch then s
                           else dfs_observed h c opts (pos + 1) (current @ [ch])
                                  (bumpUsed used ch) (hasEqual \<or> ch = CHR ''='') s)
                        (allowedChars c) (st1, seen)))"
  by pat_completeness auto
termination
  by (relation "measure (\<lambda>(h, c, opts, pos, current, used, hasEqual, p). length_opt opts - pos)")
     auto

function dfs_solver_observed ::
  "host \<Rightarrow> constraints \<Rightarrow> options \<Rightarrow> nat \<Rightarrow> string \<Rightarrow> (char \<rightharpoonup> int) \<Rightarrow> bool
     \<Rightarrow> observed_state \<Rightarrow> observed_state" where
  "dfs_solver_observed h c opts pos current used hasEqual p =
     (let st = fst p;
          seen = snd p;
          n = dfsCallCount st;
          st1 = st\<lparr>dfsCallCount := n + 1\<rparr>
      in if cancelled opts n then (st1, observe p)
         else if timedOut_solver h opts n then (st1, seen)
         else if maxResultsOf opts \<le> int (length (results st1)) then (st1, seen)
         else if pos = length_opt opts then
           (if \<not> hasEqual then (st1, seen)
            else if isValidEquation (evalReturn h) current then
              (if requiredMet c used then (st1\<lparr>results := results st1 @ [current]\<rparr>, seen)
               else (st1, seen))
            else (st1, seen))
         else if length_opt opts < pos then (st1, seen)
         else (case greenAt c pos of
                 Some ch \<Rightarrow>
                   if overMax c (bumpUsed used ch) ch then (st1, seen)
                   else dfs_solver_observed h c opts (pos + 1) (current @ [ch])
                          (bumpUsed used ch) (hasEqual \<or> ch = CHR ''='') (st1, seen)
               | None \<Rightarrow>
                   fold (\<lambda>ch s.
                           if skipChar_solver c (length_opt opts) pos used hasEqual ch then s
                           else dfs_solver_observed h c opts (pos + 1) (current @ [ch])
                                  (bumpUsed used ch) (hasEqual \<or> ch = CHR ''='') s)
                        (allowedChars c) (st1, seen)))"
  by pat_completeness auto
termination
  by (relation "measure (\<lambda>(h, c, opts, pos, current, used, hasEqual, p). length_opt opts - pos)")
     auto

section \<open>Guess records\<close>

text \<open>
  A record of the history: the guess, its feedback (one string of \<open>g\<close>, \<open>y\<close>, \<open>x\<close> in
  single mode, an array of them in 4-target mode), and the \<open>solved\<close> mark.
\<close>

datatype feedback = Single string | Multi "string list"

record guessRecord =
  guess :: string
  patterns :: feedback
  solved :: bool

text \<open>\<open>Array.isArray(patterns) ? patterns[0] : patterns\<close>\<close>

definition firstPattern :: "feedback \<Rightarrow> string option" where
  "firstPattern p = (case p of Single s \<Rightarrow> Some s | Multi ps \<Rightarrow> charAt ps 0)"

text \<open>
  The pattern a guess is read with; \<open>None\<close> where the source gives up
  (\<open>!pattern || pattern.length !== guess.length\<close>).
\<close>

definition usablePattern :: "string \<Rightarrow> feedback \<Rightarrow> string option" where
  "usablePattern g p =
     (case firstPattern p of
        None \<Rightarrow> None
      | Some pat \<Rightarrow> if pat = [] \<or> length pat \<noteq> length g then None else Some pat)"

text \<open>
  An object with one-character keys is kept as the list of its entries in the order of
  their insertion. \<open>Object.entries\<close> and \<open>for ... in\<close> visit the keys that are array
  indices (here the digits) first, in ascending order, then the others as inserted.
\<close>

definition jsEntries :: "(char \<times> 'a) list \<Rightarrow> (char \<times> 'a) list" where
  "jsEntries kvs =
     sort_key (\<lambda>kv. (of_char (fst kv) :: nat)) (filter (\<lambda>kv. isDigit (fst kv)) kvs) @
     filter (\<lambda>kv. \<not> isDigit (fst kv)) kvs"

text \<open>\<open>obj[ch]\<close> read with a default, and \<open>obj[ch].push(v)\<close> on an entry made when missing.\<close>

definition getOr :: "'a \<Rightarrow> (char \<times> 'a) list \<Rightarrow> char \<Rightarrow> 'a" where
  "getOr d kvs ch = (case map_of kvs ch of None \<Rightarrow> d | Some v \<Rightarrow> v)"

definition pushTo :: "char \<Rightarrow> int \<Rightarrow> (char \<times> int list) list \<Rightarrow> (char \<times> int list) list" where
  "pushTo ch v kvs = AList.update ch (getOr [] kvs ch @ [v]) kvs"

text \<open>\<open>arr[i] = v\<close>: an array grows, with holes, when written past its end.\<close>

definition arraySet :: "'a option list \<Rightarrow> nat \<Rightarrow> 'a \<Rightarrow> 'a option list" where
  "arraySet xs i v =
     (if i < length xs then xs[i := Some v]
      else xs @ replicate (i - length xs) None @ [Some v])"

text \<open>\<open>yellowForbiddenPositions[ch].add(i)\<close>, on a set made when missing.\<close>

definition addForbidden :: "char \<Rightarrow> nat \<Rightarrow> (char \<rightharpoonup> nat set) \<Rightarrow> (char \<rightharpoonup> nat set)" where
  "addForbidden ch i m = m(ch \<mapsto> insert i (case m ch of None \<Rightarrow> {} | Some ps \<Rightarrow> ps))"

text \<open>
  \<open>Math.max(...xs)\<close> and \<open>Math.min(...xs)\<close>. They are applied to lists that a first
  \<open>push\<close> made, never to an empty one (where the source would get an infinity).
\<close>

fun mathMax :: "int list \<Rightarrow> int" where
  "mathMax [] = 0"
| "mathMax (x # xs) = fold max xs x"

fun mathMin :: "int list \<Rightarrow> int" where
  "mathMin [] = 0"
| "mathMin (x # xs) = fold min xs x"

section \<open>The constraint builder\<close>

text \<open>The colours of each character within one guess (\<open>charColors\<close>).\<close>

record colorCount =
  green :: int
  yellow :: int
  gray :: int

definition countColor :: "char \<times> char \<Rightarrow> (char \<times> colorCount) list \<Rightarrow> (char \<times> colorCount) list" where
  "countColor p acc =
     (let ch = fst p; color = snd p;
          e = getOr \<lparr>green = 0, yellow = 0, gray = 0\<rparr> acc ch
      in AList.update ch
           (if color = CHR ''g'' then e\<lparr>green := green e + 1\<rparr>
            else if color = CHR ''y'' then e\<lparr>yellow := yellow e + 1\<rparr>
            else if color = CHR ''x'' then e\<lparr>gray := gray e + 1\<rparr>
            else e)
           acc)"

definition charColors :: "string \<Rightarrow> string \<Rightarrow> (char \<times> colorCount) list" where
  "charColors g pat = fold countColor (zip g pat) []"

text \<open>\<open>charColors[ch].green > 0 || charColors[ch].yellow > 0\<close>, for a character of the guess.\<close>

definition hasGreenOrYellow :: "(char \<times> colorCount) list \<Rightarrow> char \<Rightarrow> bool" where
  "hasGreenOrYellow cc ch =
     (case map_of cc ch of None \<Rightarrow> False | Some e \<Rightarrow> 0 < green e \<or> 0 < yellow e)"

subsection \<open>src/app.js 1032-1162\<close>

record builder =
  cons :: constraints
  charRequirements :: "(char \<times> int list) list"
  charMaxLimits :: "(char \<times> int list) list"

text \<open>The requirement and the cap one guess gives for one character.\<close>

definition recordCounts :: "char \<times> colorCount \<Rightarrow> builder \<Rightarrow> builder" where
  "recordCounts kv b =
     (let ch = fst kv; colors = snd kv;
          required = green colors + yellow colors;
          b1 = (if 0 < required
                then b\<lparr>charRequirements := pushTo ch required (charRequirements b)\<rparr> else b)
      in if 0 < gray colors \<and> 0 < required
         then b1\<lparr>charMaxLimits := pushTo ch required (charMaxLimits b1)\<rparr> else b1)"

text \<open>One position of one guess.\<close>

definition placeColor ::
  "(char \<times> colorCount) list \<Rightarrow> nat \<times> char \<times> char \<Rightarrow> constraints \<Rightarrow> constraints" where
  "placeColor cc p c =
     (let i = fst p; ch = fst (snd p); color = snd (snd p)
      in if color = CHR ''g'' then c\<lparr>greens := arraySet (greens c) i ch\<rparr>
         else if color = CHR ''y''
           then c\<lparr>yellowForbiddenPositions := addForbidden ch i (yellowForbiddenPositions c)\<rparr>
         else if color = CHR ''x'' then
           (if \<not> hasGreenOrYellow cc ch then c\<lparr>excluded := insert ch (excluded c)\<rparr>
            else c\<lparr>yellowForbiddenPositions := addForbidden ch i (yellowForbiddenPositions c)\<rparr>)
         else c)"

text \<open>One record of the history: skipped when solved, or when its pattern is unusable.\<close>

definition addGuess :: "guessRecord \<Rightarrow> builder \<Rightarrow> builder" where
  "addGuess r b =
     (if solved r then b
      else (case usablePattern (guess r) (patterns r) of
              None \<Rightarrow> b
            | Some pat \<Rightarrow>
                let cc = charColors (guess r) pat;
                    b1 = fold recordCounts (jsEntries cc) b
                in b1\<lparr>cons := fold (placeColor cc)
                                 (List.enumerate 0 (zip (guess r) pat)) (cons b1)\<rparr>))"

text \<open>\<open>greenCounts\<close>: how many positions each character is fixed at.\<close>

definition greenCounts :: "char option list \<Rightarrow> (char \<times> int) list" where
  "greenCounts gs =
     fold (\<lambda>g acc. case g of None \<Rightarrow> acc | Some ch \<Rightarrow> AList.update ch (getOr 0 acc ch + 1) acc)
       gs []"

text \<open>The first correction: the fixed positions are taken off the requirement.\<close>

definition subtractGreens :: "(char \<times> int) list \<Rightarrow> (char \<times> int) list \<Rightarrow> (char \<times> int) list" where
  "subtractGreens gc rc =
     fold (\<lambda>kv acc. case map_of acc (fst kv) of
                      None \<Rightarrow> acc
                    | Some r \<Rightarrow> AList.update (fst kv) (max 0 (r - snd kv)) acc)
       (jsEntries gc) rc"

text \<open>The second correction: a character required or fixed is not excluded.\<close>

definition dropRequired :: "(char \<times> int) list \<Rightarrow> (char \<times> int) list \<Rightarrow> char set \<Rightarrow> char set" where
  "dropRequired gc rc ex =
     fold (\<lambda>kv acc. if 0 < snd kv \<or> 0 < getOr 0 gc (fst kv) then acc - {fst kv} else acc)
       (jsEntries rc) ex"

definition emptyConstraints :: "nat \<Rightarrow> constraints" where
  "emptyConstraints len =
     \<lparr>greens = replicate len None, requiredCounts = [], maxCounts = Map.empty, excluded = {},
      yellowForbiddenPositions = Map.empty\<rparr>"

definition buildConstraintsFromGuesses :: "guessRecord list \<Rightarrow> nat \<Rightarrow> constraints" where
  "buildConstraintsFromGuesses guesses len =
     (let b = fold addGuess guesses
                \<lparr>cons = emptyConstraints len, charRequirements = [], charMaxLimits = []\<rparr>;
          c = cons b;
          rc0 = fold (\<lambda>kv acc. AList.update (fst kv) (mathMax (snd kv)) acc)
                  (jsEntries (charRequirements b)) (requiredCounts c);
          mc = fold (\<lambda>kv m. m(fst kv \<mapsto> mathMin (snd kv)))
                 (jsEntries (charMaxLimits b)) (maxCounts c);
          gc = greenCounts (greens c);
          rc = subtractGreens gc rc0
      in c\<lparr>requiredCounts := rc, maxCounts := mc, excluded := dropRequired gc rc (excluded c)\<rparr>)"

subsection \<open>src/solver.js 149-220\<close>

text \<open>
  The builder of src/solver.js has no \<open>solved\<close> mark to skip, adds one to
  \<open>requiredCounts\<close> at every green and every yellow of every guess, overwrites
  \<open>maxCounts\<close> at a gray, and applies no correction at the end.
\<close>

definition bumpRequired :: "char \<Rightarrow> (char \<times> int) list \<Rightarrow> (char \<times> int) list" where
  "bumpRequired ch rc = AList.update ch (getOr 0 rc ch + 1) rc"

definition placeColor_solver ::
  "(char \<times> colorCount) list \<Rightarrow> nat \<times> char \<times> char \<Rightarrow> constraints \<Rightarrow> constraints" where
  "placeColor_solver cc p c =
     (let i = fst p; ch = fst (snd p); color = snd (snd p)
      in if color = CHR ''g''
           then c\<lparr>greens := arraySet (greens c) i ch,
                  requiredCounts := bumpRequired ch (requiredCounts c)\<rparr>
         else if color = CHR ''y''
           then c\<lparr>requiredCounts := bumpRequired ch (requiredCounts c),
                  yellowForbiddenPositions := addForbidden ch i (yellowForbiddenPositions c)\<rparr>
         else if color = CHR ''x'' then
           (if \<not> hasGreenOrYellow cc ch then c\<lparr>excluded := insert ch (excluded c)\<rparr>
            else c\<lparr>maxCounts := (maxCounts c)
                       (ch \<mapsto> green (getOr \<lparr>green = 0, yellow = 0, gray = 0\<rparr> cc ch) +
                              yellow (getOr \<lparr>green = 0, yellow = 0, gray = 0\<rparr> cc ch)),
                   yellowForbiddenPositions := addForbidden ch i (yellowForbiddenPositions c)\<rparr>)
         else c)"

definition addGuess_solver :: "guessRecord \<Rightarrow> constraints \<Rightarrow> constraints" where
  "addGuess_solver r c =
     (case usablePattern (guess r) (patterns r) of
        None \<Rightarrow> c
      | Some pat \<Rightarrow>
          fold (placeColor_solver (charColors (guess r) pat))
            (List.enumerate 0 (zip (guess r) pat)) c)"

definition buildConstraintsFromGuesses_solver :: "guessRecord list \<Rightarrow> nat \<Rightarrow> constraints" where
  "buildConstraintsFromGuesses_solver guesses len =
     fold addGuess_solver guesses (emptyConstraints len)"

section \<open>The consistency checker\<close>

text \<open>
  The result \<open>{valid, error}\<close>. The error is a message; it is kept as the kind of the
  violation with the values the message quotes (positions are quoted from 1).
\<close>

datatype violation =
    LengthMismatch
  | FixedToOther nat char char
  | FixedNotGreen nat char
  | ExcludedMarked char
  | ForbiddenMarked char nat
  | OverCap char int int

datatype verdict = Valid | Invalid violation

text \<open>The first of the tests to fail, in the order they are made.\<close>

fun firstSome :: "'a option list \<Rightarrow> 'a option" where
  "firstSome [] = None"
| "firstSome (None # xs) = firstSome xs"
| "firstSome (Some v # xs) = Some v"

definition fixedViolation :: "constraints \<Rightarrow> nat \<Rightarrow> char \<Rightarrow> char \<Rightarrow> violation option" where
  "fixedViolation c i ch color =
     (case greenAt c i of
        None \<Rightarrow> None
      | Some g \<Rightarrow>
          if g \<noteq> ch then (if color = CHR ''g'' then Some (FixedToOther (i + 1) g ch) else None)
          else (if color \<noteq> CHR ''g'' then Some (FixedNotGreen (i + 1) ch) else None))"

definition excludedViolation :: "constraints \<Rightarrow> char \<Rightarrow> char \<Rightarrow> violation option" where
  "excludedViolation c ch color =
     (if ch \<in> excluded c \<and> (color = CHR ''g'' \<or> color = CHR ''y'')
      then Some (ExcludedMarked ch) else None)"

text \<open>The count of greens and yellows of each character of the new guess.\<close>

definition markedCounts :: "string \<Rightarrow> string \<Rightarrow> (char \<times> int) list" where
  "markedCounts g pat =
     fold (\<lambda>p acc. if snd p = CHR ''g'' \<or> snd p = CHR ''y''
                   then AList.update (fst p) (getOr 0 acc (fst p) + 1) acc else acc)
       (zip g pat) []"

definition capViolation :: "constraints \<Rightarrow> char \<times> int \<Rightarrow> violation option" where
  "capViolation c kv =
     (case maxCounts c (fst kv) of
        None \<Rightarrow> None
      | Some m \<Rightarrow> if m < snd kv then Some (OverCap (fst kv) (snd kv) m) else None)"

subsection \<open>src/app.js 941-1024\<close>

text \<open>A character forbidden at a position may be marked yellow there again, not green.\<close>

definition forbiddenViolation :: "constraints \<Rightarrow> nat \<Rightarrow> char \<Rightarrow> char \<Rightarrow> violation option" where
  "forbiddenViolation c i ch color =
     (if forbiddenAt c ch i \<and> color = CHR ''g'' then Some (ForbiddenMarked ch (i + 1)) else None)"

definition positionViolation :: "constraints \<Rightarrow> nat \<times> char \<times> char \<Rightarrow> violation option" where
  "positionViolation c p =
     (let i = fst p; ch = fst (snd p); color = snd (snd p)
      in firstSome [fixedViolation c i ch color, excludedViolation c ch color,
                    forbiddenViolation c i ch color])"

definition checkPatternConsistency :: "string \<Rightarrow> feedback \<Rightarrow> constraints \<Rightarrow> verdict" where
  "checkPatternConsistency g ps c =
     (case usablePattern g ps of
        None \<Rightarrow> Invalid LengthMismatch
      | Some pat \<Rightarrow>
          (case firstSome (map (positionViolation c) (List.enumerate 0 (zip g pat)) @
                           map (capViolation c) (jsEntries (markedCounts g pat))) of
             Some v \<Rightarrow> Invalid v
           | None \<Rightarrow> Valid))"

subsection \<open>src/solver.js 63-141\<close>

text \<open>Here a character forbidden at a position may be marked neither yellow nor green there.\<close>

definition forbiddenViolation_solver ::
  "constraints \<Rightarrow> nat \<Rightarrow> char \<Rightarrow> char \<Rightarrow> violation option" where
  "forbiddenViolation_solver c i ch color =
     (if forbiddenAt c ch i \<and> (color = CHR ''y'' \<or> color = CHR ''g'')
      then Some (ForbiddenMarked ch (i + 1)) else None)"

definition positionViolation_solver :: "constraints \<Rightarrow> nat \<times> char \<times> char \<Rightarrow> violation option" where
  "positionViolation_solver c p =
     (let i = fst p; ch = fst (snd p); color = snd (snd p)
      in firstSome [fixedViolation c i ch color, excludedViolation c ch color,
                    forbiddenViolation_solver c i ch color])"

definition checkPatternConsistency_solver :: "string \<Rightarrow> feedback \<Rightarrow> constraints \<Rightarrow> verdict" where
  "checkPatternConsistency_solver g ps c =
     (case usablePattern g ps of
        None \<Rightarrow> Invalid LengthMismatch
      | Some pat \<Rightarrow>
          (case firstSome (map (positionViolation_solver c) (List.enumerate 0 (zip g pat)) @
                           map (capViolation c) (jsEntries (markedCounts g pat))) of
             Some v \<Rightarrow> Invalid v
           | None \<Rightarrow> Valid))"

section \<open>Inputs of the examples\<close>

text \<open>
  A host for the examples: the model of the evaluation above, with any approximation
  \<open>ap\<close> for \<open>**\<close>, and a search that takes less than a millisecond.
\<close>

definition modelHost :: "(rat \<Rightarrow> rat \<Rightarrow> double) \<Rightarrow> host" where
  "modelHost ap = \<lparr>evalReturn = jsReturn ap, elapsedMs = (\<lambda>n. 0)\<rparr>"

definition defaultOptions :: "nat \<Rightarrow> options" where
  "defaultOptions len =
     \<lparr>length_opt = len, maxResults = None, timeoutMs = None, cancelledRef = None\<rparr>"

text \<open>Four positions fixed to \<open>1+?=2\<close>, and two \<open>1\<close> required.\<close>

definition oneFree :: constraints where
  "oneFree =
     \<lparr>greens = [Some CHR ''1'', Some CHR ''+'', None, Some CHR ''='', Some CHR ''2''],
      requiredCounts = [(CHR ''1'', 2)], maxCounts = Map.empty, excluded = {},
      yellowForbiddenPositions = Map.empty\<rparr>"

text \<open>Scenario B of the specification: one guess, \<open>2+2=4\<close>, answered \<open>xgxgx\<close>.\<close>

definition scenarioB_history :: "guessRecord list" where
  "scenarioB_history = [\<lparr>guess = ''2+2=4'', patterns = Single ''xgxgx'', solved = False\<rparr>]"

definition scenarioB :: constraints where
  "scenarioB = buildConstraintsFromGuesses scenarioB_history 5"

definition scenarioB_solver :: constraints where
  "scenarioB_solver = buildConstraintsFromGuesses_solver scenarioB_history 5"

section \<open>Properties of the search\<close>

declare dfs.simps [simp del]
declare dfs_solver.simps [simp del]
declare dfs_observed.simps [simp del]
declare dfs_solver_observed.simps [simp del]

text \<open>
  The equations of \<open>dfs\<close> and \<open>dfs_solver\<close> with the successor written for \<open>n + 1\<close>, so
  that counting a call is one step of an evaluation.
\<close>

lemma dfs_code [code]:
  "dfs h c opts pos current used hasEqual st =
     (let n = dfsCallCount st;
          st1 = st\<lparr>dfsCallCount := Suc n\<rparr>
      in if cancelled opts n then st1
         else if timedOut h opts n then st1
         else if maxResultsOf opts \<le> int (length (results st1)) then st1
         else if pos = length_opt opts then
           (if \<not> hasEqual then st1
            else if \<not> isValidEquation (evalReturn h) current then st1
            else if \<not> requiredMet c used then st1
            else st1\<lparr>results := results st1 @ [current]\<rparr>)
         else if length_opt opts < pos then st1
         else (case greenAt c pos of
                 Some ch \<Rightarrow>
                   if ch = CHR ''='' \<and> lastIsOperator current pos then st1
                   else if overMax c (bumpUsed used ch) ch then st1
                   else dfs h c opts (pos + 1) (current @ [ch]) (bumpUsed used ch)
                          (hasEqual \<or> ch = CHR ''='') st1
               | None \<Rightarrow>
                   fold (\<lambda>ch s.
                           if skipChar c (length_opt opts) pos current used hasEqual ch then s
                           else dfs h c opts (pos + 1) (current @ [ch]) (bumpUsed used ch)
                                  (hasEqual \<or> ch = CHR ''='') s)
                        (allowedChars c) st1))"
  by (subst dfs.simps) simp

lemma dfs_solver_code [code]:
  "dfs_solver h c opts pos current used hasEqual st =
     (let n = dfsCallCount st;
          st1 = st\<lparr>dfsCallCount := Suc n\<rparr>
      in if cancelled opts n \<or> timedOut_solver h opts n then st1
         else if maxResultsOf opts \<le> int (length (results st1)) then st1
         else if pos = length_opt opts then
           (if \<not> hasEqual then st1
            else if isValidEquation (evalReturn h) current then
              (if requiredMet c used then st1\<lparr>results := results st1 @ [current]\<rparr> else st1)
            else st1)
         else if length_opt opts < pos then st1
         else (case greenAt c pos of
                 Some ch \<Rightarrow>
                   if overMax c (bumpUsed used ch) ch then st1
                   else dfs_solver h c opts (pos + 1) (current @ [ch]) (bumpUsed used ch)
                          (hasEqual \<or> ch = CHR ''='') st1
               | None \<Rightarrow>
                   fold (\<lambda>ch s.
                           if skipChar_solver c (length_opt opts) pos used hasEqual ch then s
                           else dfs_solver h c opts (pos + 1) (current @ [ch]) (bumpUsed used ch)
                                  (hasEqual \<or> ch = CHR ''='') s)
                        (allowedChars c) st1))"
  by (subst dfs_solver.simps) simp

lemma fold_inv:
  "(\<And>x s. x \<in> set xs \<Longrightarrow> I s \<Longrightarrow> I (f x s)) \<Longrightarrow> I s0 \<Longrightarrow> I (fold f xs s0)"
  by (induction xs arbitrary: s0) auto

definition tally :: "(char \<rightharpoonup> int) \<Rightarrow> string \<Rightarrow> bool" where
  "tally used s = (\<forall>ch. usedCount used ch = int (count_list s ch))"

lemma tally_empty: "tally Map.empty []"
  by (simp add: tally_def usedCount_def)

lemma tally_bump: "tally used s \<Longrightarrow> tally (bumpUsed used ch) (s @ [ch])"
  by (simp add: tally_def usedCount_def bumpUsed_def)

text \<open>
  The shape of every proof about the results: an invariant of the path (position, string
  built, tally, flag) that each step of the search keeps, and what it gives at a leaf
  that is accepted. A call then only appends, to the results it was entered with,
  strings with the property of the leaf.
\<close>

definition greenStep :: "constraints \<Rightarrow> options \<Rightarrow> (nat \<Rightarrow> string \<Rightarrow> (char \<rightharpoonup> int) \<Rightarrow> bool \<Rightarrow> bool) \<Rightarrow> bool" where
  "greenStep c opts Inv = (\<forall>pos current used hasEqual ch.
      Inv pos current used hasEqual \<longrightarrow> pos < length_opt opts \<longrightarrow> greenAt c pos = Some ch \<longrightarrow>
      \<not> (ch = CHR ''='' \<and> lastIsOperator current pos) \<longrightarrow> \<not> overMax c (bumpUsed used ch) ch \<longrightarrow>
      Inv (pos + 1) (current @ [ch]) (bumpUsed used ch) (hasEqual \<or> ch = CHR ''=''))"

definition freeStep :: "constraints \<Rightarrow> options \<Rightarrow> (nat \<Rightarrow> string \<Rightarrow> (char \<rightharpoonup> int) \<Rightarrow> bool \<Rightarrow> bool) \<Rightarrow> bool" where
  "freeStep c opts Inv = (\<forall>pos current used hasEqual ch.
      Inv pos current used hasEqual \<longrightarrow> pos < length_opt opts \<longrightarrow> greenAt c pos = None \<longrightarrow>
      ch \<in> set (allowedChars c) \<longrightarrow>
      \<not> skipChar c (length_opt opts) pos current used hasEqual ch \<longrightarrow>
      Inv (pos + 1) (current @ [ch]) (bumpUsed used ch) (hasEqual \<or> ch = CHR ''=''))"

definition leafStep :: "host \<Rightarrow> constraints \<Rightarrow> options \<Rightarrow> (nat \<Rightarrow> string \<Rightarrow> (char \<rightharpoonup> int) \<Rightarrow> bool \<Rightarrow> bool) \<Rightarrow> (string \<Rightarrow> bool) \<Rightarrow> bool" where
  "leafStep h c opts Inv Q = (\<forall>current used.
      Inv (length_opt opts) current used True \<longrightarrow> isValidEquation (evalReturn h) current \<longrightarrow>
      requiredMet c used \<longrightarrow> Q current)"

definition greenStep_solver :: "constraints \<Rightarrow> options \<Rightarrow> (nat \<Rightarrow> string \<Rightarrow> (char \<rightharpoonup> int) \<Rightarrow> bool \<Rightarrow> bool) \<Rightarrow> bool" where
  "greenStep_solver c opts Inv = (\<forall>pos current used hasEqual ch.
      Inv pos current used hasEqual \<longrightarrow> pos < length_opt opts \<longrightarrow> greenAt c pos = Some ch \<longrightarrow>
      \<not> overMax c (bumpUsed used ch) ch \<longrightarrow>
      Inv (pos + 1) (current @ [ch]) (bumpUsed used ch) (hasEqual \<or> ch = CHR ''=''))"

definition freeStep_solver :: "constraints \<Rightarrow> options \<Rightarrow> (nat \<Rightarrow> string \<Rightarrow> (char \<rightharpoonup> int) \<Rightarrow> bool \<Rightarrow> bool) \<Rightarrow> bool" where
  "freeStep_solver c opts Inv = (\<forall>pos current used hasEqual ch.
      Inv pos current used hasEqual \<longrightarrow> pos < length_opt opts \<longrightarrow> greenAt c pos = None \<longrightarrow>
      ch \<in> set (allowedChars c) \<longrightarrow>
      \<not> skipChar_solver c (length_opt opts) pos used hasEqual ch \<longrightarrow>
      Inv (pos + 1) (current @ [ch]) (bumpUsed used ch) (hasEqual \<or> ch = CHR ''=''))"

definition leafStep_solver :: "host \<Rightarrow> constraints \<Rightarrow> options \<Rightarrow> (nat \<Rightarrow> string \<Rightarrow> (char \<rightharpoonup> int) \<Rightarrow> bool \<Rightarrow> bool) \<Rightarrow> (string \<Rightarrow> bool) \<Rightarrow> bool" where
  "leafStep_solver h c opts Inv Q = (\<forall>current used.
      Inv (length_opt opts) current used True \<longrightarrow> isValidEquation (evalReturn h) current \<longrightarrow>
      requiredMet c used \<longrightarrow> Q current)"

definition extends :: "(string \<Rightarrow> bool) \<Rightarrow> search_state \<Rightarrow> search_state \<Rightarrow> bool" where
  "extends Q st st' = (\<exists>ys. results st' = results st @ ys \<and> list_all Q ys)"

lemma extends_refl: "extends Q st st"
  by (simp add: extends_def)

lemma extends_count: "extends Q st (st\<lparr>dfsCallCount := n\<rparr>)"
  by (simp add: extends_def)

lemma extends_trans: "extends Q a b \<Longrightarrow> extends Q b d \<Longrightarrow> extends Q a d"
  by (auto simp: extends_def)

lemma extends_push: "Q x \<Longrightarrow> extends Q st (st\<lparr>dfsCallCount := n, results := results st @ [x]\<rparr>)"
  by (simp add: extends_def)

lemma dfs_extends:
  "greenStep c opts Inv \<Longrightarrow> freeStep c opts Inv \<Longrightarrow> leafStep h c opts Inv Q \<Longrightarrow>
   Inv pos current used hasEqual \<Longrightarrow>
   extends Q st (dfs h c opts pos current used hasEqual st)"
proof (induction h c opts pos current used hasEqual st rule: dfs.induct)
  case (1 h c opts pos current used hasEqual st)
  let ?st1 = "st\<lparr>dfsCallCount := dfsCallCount st + 1\<rparr>"
  have res1: "extends Q st ?st1" by (rule extends_count)
  show ?case
  proof (cases "cancelled opts (dfsCallCount st) \<or> timedOut h opts (dfsCallCount st)
                 \<or> maxResultsOf opts \<le> int (length (results st))")
    case True
    then show ?thesis using res1 by (subst dfs.simps) (auto simp: Let_def)
  next
    case run: False
    show ?thesis
    proof (cases "pos = length_opt opts")
      case True
      have "Q current" if "hasEqual" "isValidEquation (evalReturn h) current" "requiredMet c used"
        using that "1.prems"(3,4) True by (auto simp: leafStep_def)
      then show ?thesis using run True res1
        by (subst dfs.simps) (auto simp: Let_def extends_def)
    next
      case notleaf: False
      show ?thesis
      proof (cases "length_opt opts < pos")
        case True
        then show ?thesis using run notleaf res1 by (subst dfs.simps) (auto simp: Let_def)
      next
        case False
        then have lt: "pos < length_opt opts" using notleaf by simp
        show ?thesis
        proof (cases "greenAt c pos")
          case None
          let ?f = "\<lambda>ch s. if skipChar c (length_opt opts) pos current used hasEqual ch then s
                      else dfs h c opts (pos + 1) (current @ [ch]) (bumpUsed used ch)
                             (hasEqual \<or> ch = CHR ''='') s"
          have step: "extends Q st (?f ch s)"
            if "ch \<in> set (allowedChars c)" "extends Q st s" for ch s
          proof (cases "skipChar c (length_opt opts) pos current used hasEqual ch")
            case True
            then show ?thesis using that by simp
          next
            case False
            have "Inv (pos + 1) (current @ [ch]) (bumpUsed used ch) (hasEqual \<or> ch = CHR ''='')"
              using "1.prems"(2,4) lt None that(1) False unfolding freeStep_def by blast
            then have "extends Q s (dfs h c opts (pos + 1) (current @ [ch]) (bumpUsed used ch)
                             (hasEqual \<or> ch = CHR ''='') s)"
              using "1.IH"(1)[OF refl refl _ _ _ notleaf \<open>\<not> length_opt opts < pos\<close> None that(1) False
                  "1.prems"(1,2,3)] run
              by simp
            then show ?thesis using that(2) False by (auto intro: extends_trans)
          qed
          have "extends Q st (fold ?f (allowedChars c) ?st1)"
            by (rule fold_inv[where I = "extends Q st"]) (use step res1 in auto)
          then show ?thesis using run notleaf \<open>\<not> length_opt opts < pos\<close> None
            by (subst dfs.simps) (simp add: Let_def)
        next
          case (Some ch)
          show ?thesis
          proof (cases "(ch = CHR ''='' \<and> lastIsOperator current pos) \<or> overMax c (bumpUsed used ch) ch")
            case True
            then show ?thesis using run notleaf \<open>\<not> length_opt opts < pos\<close> Some res1
              by (subst dfs.simps) (auto simp: Let_def)
          next
            case False
            have "Inv (pos + 1) (current @ [ch]) (bumpUsed used ch) (hasEqual \<or> ch = CHR ''='')"
              using "1.prems"(1,4) lt Some False unfolding greenStep_def by blast
            then have "extends Q ?st1 (dfs h c opts (pos + 1) (current @ [ch]) (bumpUsed used ch)
                          (hasEqual \<or> ch = CHR ''='') ?st1)"
              using "1.IH"(2)[OF refl refl _ _ _ notleaf \<open>\<not> length_opt opts < pos\<close> Some _ _
                  "1.prems"(1,2,3)] run False
              by simp
            then have "extends Q st (dfs h c opts (pos + 1) (current @ [ch]) (bumpUsed used ch)
                          (hasEqual \<or> ch = CHR ''='') ?st1)"
              using res1 by (auto intro: extends_trans)
            then show ?thesis using run notleaf \<open>\<not> length_opt opts < pos\<close> Some False
              by (subst dfs.simps) (auto simp: Let_def)
          qed
        qed
      qed
    qed
  qed
qed

lemma dfs_results_inv:
  "greenStep c opts Inv \<Longrightarrow> freeStep c opts Inv \<Longrightarrow> leafStep h c opts Inv Q \<Longrightarrow>
   Inv pos current used hasEqual \<Longrightarrow> list_all Q (results st) \<Longrightarrow>
   list_all Q (results (dfs h c opts pos current used hasEqual st))"
  using dfs_extends[of c opts Inv h Q pos current used hasEqual st]
  by (auto simp: extends_def)


lemma dfs_solver_extends:
  "greenStep_solver c opts Inv \<Longrightarrow> freeStep_solver c opts Inv \<Longrightarrow> leafStep_solver h c opts Inv Q \<Longrightarrow>
   Inv pos current used hasEqual \<Longrightarrow>
   extends Q st (dfs_solver h c opts pos current used hasEqual st)"
proof (induction h c opts pos current used hasEqual st rule: dfs_solver.induct)
  case (1 h c opts pos current used hasEqual st)
  let ?st1 = "st\<lparr>dfsCallCount := dfsCallCount st + 1\<rparr>"
  have res1: "extends Q st ?st1" by (rule extends_count)
  show ?case
  proof (cases "cancelled opts (dfsCallCount st) \<or> timedOut_solver h opts (dfsCallCount st)
                 \<or> maxResultsOf opts \<le> int (length (results st))")
    case True
    then show ?thesis using res1 by (subst dfs_solver.simps) (auto simp: Let_def)
  next
    case run: False
    show ?thesis
    proof (cases "pos = length_opt opts")
      case True
      have "Q current" if "hasEqual" "isValidEquation (evalReturn h) current" "requiredMet c used"
        using that "1.prems"(3,4) True by (auto simp: leafStep_solver_def)
      then show ?thesis using run True res1
        by (subst dfs_solver.simps) (auto simp: Let_def extends_def)
    next
      case notleaf: False
      show ?thesis
      proof (cases "length_opt opts < pos")
        case True
        then show ?thesis using run notleaf res1 by (subst dfs_solver.simps) (auto simp: Let_def)
      next
        case False
        then have lt: "pos < length_opt opts" using notleaf by simp
        show ?thesis
        proof (cases "greenAt c pos")
          case None
          let ?f = "\<lambda>ch s. if skipChar_solver c (length_opt opts) pos used hasEqual ch then s
                      else dfs_solver h c opts (pos + 1) (current @ [ch]) (bumpUsed used ch)
                             (hasEqual \<or> ch = CHR ''='') s"
          have step: "extends Q st (?f ch s)"
            if "ch \<in> set (allowedChars c)" "extends Q st s" for ch s
          proof (cases "skipChar_solver c (length_opt opts) pos used hasEqual ch")
            case True
            then show ?thesis using that by simp
          next
            case False
            have "Inv (pos + 1) (current @ [ch]) (bumpUsed used ch) (hasEqual \<or> ch = CHR ''='')"
              using "1.prems"(2,4) lt None that(1) False unfolding freeStep_solver_def by blast
            then have "extends Q s (dfs_solver h c opts (pos + 1) (current @ [ch]) (bumpUsed used ch)
                             (hasEqual \<or> ch = CHR ''='') s)"
              using "1.IH"(1)[OF refl refl _ _ notleaf \<open>\<not> length_opt opts < pos\<close> None that(1) False
                  "1.prems"(1,2,3)] run
              by simp
            then show ?thesis using that(2) False by (auto intro: extends_trans)
          qed
          have "extends Q st (fold ?f (allowedChars c) ?st1)"
            by (rule fold_inv[where I = "extends Q st"]) (use step res1 in auto)
          then show ?thesis using run notleaf \<open>\<not> length_opt opts < pos\<close> None
            by (subst dfs_solver.simps) (simp add: Let_def)
        next
          case (Some ch)
          show ?thesis
          proof (cases "overMax c (bumpUsed used ch) ch")
            case True
            then show ?thesis using run notleaf \<open>\<not> length_opt opts < pos\<close> Some res1
              by (subst dfs_solver.simps) (auto simp: Let_def)
          next
            case False
            have "Inv (pos + 1) (current @ [ch]) (bumpUsed used ch) (hasEqual \<or> ch = CHR ''='')"
              using "1.prems"(1,4) lt Some False unfolding greenStep_solver_def by blast
            then have "extends Q ?st1 (dfs_solver h c opts (pos + 1) (current @ [ch]) (bumpUsed used ch)
                          (hasEqual \<or> ch = CHR ''='') ?st1)"
              using "1.IH"(2)[OF refl refl _ _ notleaf \<open>\<not> length_opt opts < pos\<close> Some _
                  "1.prems"(1,2,3)] run False
              by simp
            then have "extends Q st (dfs_solver h c opts (pos + 1) (current @ [ch]) (bumpUsed used ch)
                          (hasEqual \<or> ch = CHR ''='') ?st1)"
              using res1 by (auto intro: extends_trans)
            then show ?thesis using run notleaf \<open>\<not> length_opt opts < pos\<close> Some False
              by (subst dfs_solver.simps) (auto simp: Let_def)
          qed
        qed
      qed
    qed
  qed
qed

lemma dfs_solver_results_inv:
  "greenStep_solver c opts Inv \<Longrightarrow> freeStep_solver c opts Inv \<Longrightarrow> leafStep_solver h c opts Inv Q \<Longrightarrow>
   Inv pos current used hasEqual \<Longrightarrow> list_all Q (results st) \<Longrightarrow>
   list_all Q (results (dfs_solver h c opts pos current used hasEqual st))"
  using dfs_solver_extends[of c opts Inv h Q pos current used hasEqual st]
  by (auto simp: extends_def)

definition pathInv :: "nat \<Rightarrow> string \<Rightarrow> (char \<rightharpoonup> int) \<Rightarrow> bool \<Rightarrow> bool" where
  "pathInv pos current used hasEqual = (length current = pos \<and> tally used current)"

lemma pathInv_step:
  "pathInv pos current used hasEqual \<Longrightarrow>
   pathInv (pos + 1) (current @ [ch]) (bumpUsed used ch) hasEqual'"
  by (simp add: pathInv_def tally_bump)

lemma isValidEquation_has_equals: "isValidEquation ev s \<Longrightarrow> CHR ''='' \<in> set s"
proof -
  assume v: "isValidEquation ev s"
  have "\<not> isValidEquation ev s" if "count_list s CHR ''='' \<noteq> 1"
    using that by (simp add: isValidEquation_def)
  then have "count_list s CHR ''='' = 1" using v by blast
  then show ?thesis
    using count_list_0_iff[of s "CHR ''=''"] by fastforce
qed

lemma requiredMet_tally:
  "requiredMet c used \<Longrightarrow> tally used s \<Longrightarrow> (ch, n) \<in> set (requiredCounts c) \<Longrightarrow>
   n \<le> int (count_list s ch)"
  by (fastforce simp: requiredMet_def tally_def list_all_iff)

definition accepted :: "host \<Rightarrow> constraints \<Rightarrow> options \<Rightarrow> string \<Rightarrow> bool" where
  "accepted h c opts s =
     (length s = length_opt opts \<and> CHR ''='' \<in> set s \<and> isValidEquation (evalReturn h) s \<and>
      list_all (\<lambda>(ch, n). n \<le> int (count_list s ch)) (requiredCounts c))"

lemma accepted_leaf:
  "pathInv (length_opt opts) current used True \<Longrightarrow> isValidEquation (evalReturn h) current \<Longrightarrow>
   requiredMet c used \<Longrightarrow> accepted h c opts current"
  by (auto simp: accepted_def pathInv_def list_all_iff
           dest: isValidEquation_has_equals requiredMet_tally)

lemma dfs_accepted:
  "list_all (accepted h c opts)
     (results (dfs h c opts 0 [] Map.empty False \<lparr>results = [], dfsCallCount = 0\<rparr>))"
  by (rule dfs_results_inv[where Inv = pathInv])
     (auto simp: greenStep_def freeStep_def leafStep_def pathInv_step accepted_leaf
        pathInv_def tally_empty tally_bump)

lemma dfs_solver_accepted:
  "list_all (accepted h c opts)
     (results (dfs_solver h c opts 0 [] Map.empty False \<lparr>results = [], dfsCallCount = 0\<rparr>))"
  by (rule dfs_solver_results_inv[where Inv = pathInv])
     (auto simp: greenStep_solver_def freeStep_solver_def leafStep_solver_def pathInv_step
        accepted_leaf pathInv_def tally_empty tally_bump)

lemma set_sortByScore: "set (sortByScore rs) = set rs"
  by (simp add: sortByScore_def)

text \<open>
  C1. Every string that \<open>generateCandidates\<close> returns (in src/app.js and in
  src/solver.js) has the length of the options, holds an equals sign, is accepted by
  \<open>isValidEquation\<close>, and holds every character of \<open>requiredCounts\<close> at least as often
  as its entry says; the tally the search keeps is the number of occurrences in the
  string.
\<close>

theorem generateCandidates_results_accepted:
  "(\<forall>s \<in> set (generateCandidates h c opts).
      length s = length_opt opts \<and> CHR ''='' \<in> set s \<and> isValidEquation (evalReturn h) s \<and>
      (\<forall>(ch, n) \<in> set (requiredCounts c). n \<le> int (count_list s ch))) \<and>
   (\<forall>s \<in> set (generateCandidates_solver h c opts).
      length s = length_opt opts \<and> CHR ''='' \<in> set s \<and> isValidEquation (evalReturn h) s \<and>
      (\<forall>(ch, n) \<in> set (requiredCounts c). n \<le> int (count_list s ch)))"
  using dfs_accepted[of h c opts] dfs_solver_accepted[of h c opts]
  by (simp add: generateCandidates_def generateCandidates_solver_def set_sortByScore
        list_all_iff accepted_def)

lemma oneFree_results:
  "generateCandidates (modelHost ap) oneFree (defaultOptions 5) = [''1+1=2'']"
  "generateCandidates_solver (modelHost ap) oneFree (defaultOptions 5) = [''1+1=2'']"
  by code_simp+

theorem generateCandidates_results_accepted_witness:
  "\<forall>ap. ''1+1=2'' \<in> set (generateCandidates (modelHost ap) oneFree (defaultOptions 5)) \<and>
        ''1+1=2'' \<in> set (generateCandidates_solver (modelHost ap) oneFree (defaultOptions 5)) \<and>
        length ''1+1=2'' = length_opt (defaultOptions 5) \<and>
        CHR ''='' \<in> set ''1+1=2'' \<and>
        isValidEquation (jsReturn ap) ''1+1=2'' \<and>
        (2::int) \<le> int (count_list ''1+1=2'' CHR ''1'')"
proof
  fix ap
  have m: "''1+1=2'' \<in> set (generateCandidates (modelHost ap) oneFree (defaultOptions 5))"
    "''1+1=2'' \<in> set (generateCandidates_solver (modelHost ap) oneFree (defaultOptions 5))"
    by (simp_all add: oneFree_results)
  have r: "(CHR ''1'', 2) \<in> set (requiredCounts oneFree)"
    by (simp add: oneFree_def)
  show "''1+1=2'' \<in> set (generateCandidates (modelHost ap) oneFree (defaultOptions 5)) \<and>
        ''1+1=2'' \<in> set (generateCandidates_solver (modelHost ap) oneFree (defaultOptions 5)) \<and>
        length ''1+1=2'' = length_opt (defaultOptions 5) \<and>
        CHR ''='' \<in> set ''1+1=2'' \<and>
        isValidEquation (jsReturn ap) ''1+1=2'' \<and>
        (2::int) \<le> int (count_list ''1+1=2'' CHR ''1'')"
    using generateCandidates_results_accepted[of "modelHost ap" oneFree "defaultOptions 5"] m r
    by (fastforce simp: modelHost_def)
qed

text \<open>Caps and forbidden positions along a path.\<close>

definition capInv :: "constraints \<Rightarrow> nat \<Rightarrow> string \<Rightarrow> (char \<rightharpoonup> int) \<Rightarrow> bool \<Rightarrow> bool" where
  "capInv c pos current used hasEqual =
     (length current = pos \<and> tally used current \<and>
      (\<forall>ch m. maxCounts c ch = Some m \<longrightarrow> 0 < m \<longrightarrow> int (count_list current ch) \<le> m) \<and>
      (\<forall>i < length current. greenAt c i = None \<longrightarrow> \<not> forbiddenAt c (current ! i) i))"

lemma capInv_start: "capInv c 0 [] Map.empty False"
  by (simp add: capInv_def tally_empty)

lemma capInv_append:
  assumes "capInv c pos current used hasEqual"
    and "\<not> overMax c (bumpUsed used ch) ch"
    and "greenAt c pos = None \<Longrightarrow> \<not> forbiddenAt c ch pos"
  shows "capInv c (Suc pos) (current @ [ch]) (bumpUsed used ch) hasEqual'"
proof -
  from assms(1) have len: "length current = pos" and t: "tally used current"
    and caps: "\<And>x m. maxCounts c x = Some m \<Longrightarrow> 0 < m \<Longrightarrow> int (count_list current x) \<le> m"
    and forb: "\<And>i. i < length current \<Longrightarrow> greenAt c i = None \<Longrightarrow>
                 \<not> forbiddenAt c (current ! i) i"
    by (auto simp: capInv_def)
  have t': "tally (bumpUsed used ch) (current @ [ch])" using t by (rule tally_bump)
  have caps': "int (count_list (current @ [ch]) x) \<le> m"
    if "maxCounts c x = Some m" "0 < m" for x m
  proof (cases "x = ch")
    case True
    have "usedCount (bumpUsed used ch) ch = int (count_list (current @ [ch]) ch)"
      using t' by (simp add: tally_def)
    then show ?thesis using assms(2) that True by (auto simp: overMax_def)
  next
    case False
    then show ?thesis using caps[OF that] by simp
  qed
  have forb': "\<not> forbiddenAt c ((current @ [ch]) ! i) i"
    if "i < length (current @ [ch])" "greenAt c i = None" for i
  proof (cases "i < length current")
    case True
    then show ?thesis using forb[OF True that(2)] by (simp add: nth_append)
  next
    case False
    then have "i = pos" using that(1) len by simp
    then show ?thesis using assms(3) that(2) len by (simp add: nth_append)
  qed
  show ?thesis
    unfolding capInv_def using len t' caps' forb' by auto
qed

definition withinCaps :: "constraints \<Rightarrow> string \<Rightarrow> bool" where
  "withinCaps c s =
     ((\<forall>ch n. (ch, n) \<in> set (requiredCounts c) \<longrightarrow> n \<le> int (count_list s ch)) \<and>
      (\<forall>ch m. maxCounts c ch = Some m \<longrightarrow> 0 < m \<longrightarrow> int (count_list s ch) \<le> m) \<and>
      (\<forall>i < length s. greenAt c i = None \<longrightarrow> \<not> forbiddenAt c (s ! i) i))"

lemma capInv_leaf: "capInv c len current used True \<Longrightarrow> requiredMet c used \<Longrightarrow> withinCaps c current"
  unfolding capInv_def withinCaps_def
  by (auto dest: requiredMet_tally)

lemma dfs_withinCaps:
  "list_all (withinCaps c)
     (results (dfs h c opts 0 [] Map.empty False \<lparr>results = [], dfsCallCount = 0\<rparr>))"
proof (rule dfs_results_inv[where Inv = "capInv c"])
  show "greenStep c opts (capInv c)"
    unfolding greenStep_def by (auto intro!: capInv_append)
  show "freeStep c opts (capInv c)"
    unfolding freeStep_def by (auto intro!: capInv_append simp: skipChar_def)
  show "leafStep h c opts (capInv c) (withinCaps c)"
    unfolding leafStep_def by (auto intro: capInv_leaf)
qed (simp_all add: capInv_start)

lemma dfs_solver_withinCaps:
  "list_all (withinCaps c)
     (results (dfs_solver h c opts 0 [] Map.empty False \<lparr>results = [], dfsCallCount = 0\<rparr>))"
proof (rule dfs_solver_results_inv[where Inv = "capInv c"])
  show "greenStep_solver c opts (capInv c)"
    unfolding greenStep_solver_def by (auto intro!: capInv_append)
  show "freeStep_solver c opts (capInv c)"
    unfolding freeStep_solver_def by (auto intro!: capInv_append simp: skipChar_solver_def)
  show "leafStep_solver h c opts (capInv c) (withinCaps c)"
    unfolding leafStep_solver_def by (auto intro: capInv_leaf)
qed (simp_all add: capInv_start)

text \<open>
  C2, as amended. In every result (of src/app.js and of src/solver.js) and for every
  character: it occurs at least as often as its entry of \<open>requiredCounts\<close> says; at
  most as often as its entry of \<open>maxCounts\<close> says when that entry is positive; and at
  no position that is not green-fixed and is listed for it in
  \<open>yellowForbiddenPositions\<close>. A green-fixed position is filled without a look at the
  forbidden positions, and an entry 0 of \<open>maxCounts\<close> is read as no entry.
\<close>

theorem generateCandidates_counts_and_positions:
  "(\<forall>s \<in> set (generateCandidates h c opts). \<forall>ch.
      (\<forall>n. (ch, n) \<in> set (requiredCounts c) \<longrightarrow> n \<le> int (count_list s ch)) \<and>
      (\<forall>m. maxCounts c ch = Some m \<and> 0 < m \<longrightarrow> int (count_list s ch) \<le> m) \<and>
      (\<forall>i < length s. s ! i = ch \<and> greenAt c i = None \<longrightarrow> \<not> forbiddenAt c ch i)) \<and>
   (\<forall>s \<in> set (generateCandidates_solver h c opts). \<forall>ch.
      (\<forall>n. (ch, n) \<in> set (requiredCounts c) \<longrightarrow> n \<le> int (count_list s ch)) \<and>
      (\<forall>m. maxCounts c ch = Some m \<and> 0 < m \<longrightarrow> int (count_list s ch) \<le> m) \<and>
      (\<forall>i < length s. s ! i = ch \<and> greenAt c i = None \<longrightarrow> \<not> forbiddenAt c ch i))"
  using dfs_withinCaps[of c h opts] dfs_solver_withinCaps[of c h opts]
  unfolding generateCandidates_def generateCandidates_solver_def set_sortByScore
    list_all_iff withinCaps_def
  by blast

definition oneFreeCapped :: constraints where
  "oneFreeCapped =
     \<lparr>greens = [Some CHR ''1'', Some CHR ''+'', None, Some CHR ''='', Some CHR ''2''],
      requiredCounts = [(CHR ''1'', 2)], maxCounts = [CHR ''1'' \<mapsto> 2], excluded = {},
      yellowForbiddenPositions = [CHR ''1'' \<mapsto> {4}]\<rparr>"

definition fixedForbidden :: constraints where
  "fixedForbidden =
     \<lparr>greens = [Some CHR ''1'', Some CHR ''+'', Some CHR ''1'', Some CHR ''='', Some CHR ''2''],
      requiredCounts = [], maxCounts = [CHR ''1'' \<mapsto> 0], excluded = {},
      yellowForbiddenPositions = [CHR ''1'' \<mapsto> {0}]\<rparr>"

lemma oneFreeCapped_results:
  "generateCandidates (modelHost ap) oneFreeCapped (defaultOptions 5) = [''1+1=2'']"
  "generateCandidates_solver (modelHost ap) oneFreeCapped (defaultOptions 5) = [''1+1=2'']"
  by code_simp+

lemma fixedForbidden_results:
  "generateCandidates (modelHost ap) fixedForbidden (defaultOptions 5) = [''1+1=2'']"
  "generateCandidates_solver (modelHost ap) fixedForbidden (defaultOptions 5) = [''1+1=2'']"
  by code_simp+

theorem generateCandidates_counts_and_positions_witness:
  "\<forall>ap. ''1+1=2'' \<in> set (generateCandidates (modelHost ap) oneFreeCapped (defaultOptions 5)) \<and>
        ''1+1=2'' \<in> set (generateCandidates_solver (modelHost ap) oneFreeCapped (defaultOptions 5)) \<and>
        (CHR ''1'', 2) \<in> set (requiredCounts oneFreeCapped) \<and>
        maxCounts oneFreeCapped CHR ''1'' = Some 2 \<and>
        ''1+1=2'' ! 2 = CHR ''1'' \<and> greenAt oneFreeCapped 2 = None \<and>
        (2::int) \<le> int (count_list ''1+1=2'' CHR ''1'') \<and>
        int (count_list ''1+1=2'' CHR ''1'') \<le> 2 \<and>
        \<not> forbiddenAt oneFreeCapped CHR ''1'' 2"
proof
  fix ap
  have m: "''1+1=2'' \<in> set (generateCandidates (modelHost ap) oneFreeCapped (defaultOptions 5))"
    "''1+1=2'' \<in> set (generateCandidates_solver (modelHost ap) oneFreeCapped (defaultOptions 5))"
    by (simp_all add: oneFreeCapped_results)
  have r: "(CHR ''1'', 2) \<in> set (requiredCounts oneFreeCapped)"
    "maxCounts oneFreeCapped CHR ''1'' = Some 2"
    "''1+1=2'' ! 2 = CHR ''1''" "greenAt oneFreeCapped 2 = None"
    by (simp_all add: oneFreeCapped_def greenAt_def charAt_def)
  have "(2::int) \<le> int (count_list ''1+1=2'' CHR ''1'') \<and>
        int (count_list ''1+1=2'' CHR ''1'') \<le> 2 \<and>
        \<not> forbiddenAt oneFreeCapped CHR ''1'' 2"
    using generateCandidates_counts_and_positions[of "modelHost ap" oneFreeCapped "defaultOptions 5"]
      m r
    by (metis length_Cons list.size(3) numeral_2_eq_2 lessI less_SucI zero_less_numeral)
  then show "''1+1=2'' \<in> set (generateCandidates (modelHost ap) oneFreeCapped (defaultOptions 5)) \<and>
        ''1+1=2'' \<in> set (generateCandidates_solver (modelHost ap) oneFreeCapped (defaultOptions 5)) \<and>
        (CHR ''1'', 2) \<in> set (requiredCounts oneFreeCapped) \<and>
        maxCounts oneFreeCapped CHR ''1'' = Some 2 \<and>
        ''1+1=2'' ! 2 = CHR ''1'' \<and> greenAt oneFreeCapped 2 = None \<and>
        (2::int) \<le> int (count_list ''1+1=2'' CHR ''1'') \<and>
        int (count_list ''1+1=2'' CHR ''1'') \<le> 2 \<and>
        \<not> forbiddenAt oneFreeCapped CHR ''1'' 2"
    using m r by blast
qed

text \<open>
  Against C2 as stated: with every position green-fixed to \<open>1+1=2\<close>, the character \<open>1\<close>
  forbidden at position 0 and capped at 0, both searches return \<open>1+1=2\<close>: \<open>1\<close> stands at
  the position forbidden for it, and occurs twice.
\<close>

theorem generateCandidates_forbidden_green_counterexample:
  "\<forall>ap. ''1+1=2'' \<in> set (generateCandidates (modelHost ap) fixedForbidden (defaultOptions 5)) \<and>
        ''1+1=2'' \<in> set (generateCandidates_solver (modelHost ap) fixedForbidden (defaultOptions 5)) \<and>
        ''1+1=2'' ! 0 = CHR ''1'' \<and> forbiddenAt fixedForbidden CHR ''1'' 0 \<and>
        maxCounts fixedForbidden CHR ''1'' = Some 0 \<and>
        (0::int) < int (count_list ''1+1=2'' CHR ''1'')"
  by (simp add: fixedForbidden_results) (simp add: fixedForbidden_def forbiddenAt_def)

text \<open>Adjacent operators along a path of the search of src/app.js.\<close>

definition adjacentOk :: "constraints \<Rightarrow> string \<Rightarrow> bool" where
  "adjacentOk c s =
     (\<forall>i. 0 < i \<longrightarrow> i < length s \<longrightarrow> greenAt c i = None \<longrightarrow> isOperator (s ! i) \<longrightarrow>
          s ! (i - 1) \<in> set ''+-*/='' \<longrightarrow> s ! i = CHR ''-'' \<and> s ! (i - 1) \<noteq> CHR ''-'')"

definition adjInv :: "constraints \<Rightarrow> nat \<Rightarrow> string \<Rightarrow> (char \<rightharpoonup> int) \<Rightarrow> bool \<Rightarrow> bool" where
  "adjInv c pos current used hasEqual = (length current = pos \<and> adjacentOk c current)"

lemma adjacentOk_append:
  assumes ok: "adjacentOk c current"
    and new: "greenAt c (length current) = None \<Longrightarrow> \<not> skipAdjacent current (length current) ch"
  shows "adjacentOk c (current @ [ch])"
  unfolding adjacentOk_def
proof (intro allI impI)
  fix i
  assume i: "0 < i" "i < length (current @ [ch])" and free: "greenAt c i = None"
    and op: "isOperator ((current @ [ch]) ! i)"
    and prev: "(current @ [ch]) ! (i - 1) \<in> set ''+-*/=''"
  show "(current @ [ch]) ! i = CHR ''-'' \<and> (current @ [ch]) ! (i - 1) \<noteq> CHR ''-''"
  proof (cases "i < length current")
    case True
    then have a: "(current @ [ch]) ! i = current ! i"
      and b: "(current @ [ch]) ! (i - 1) = current ! (i - 1)"
      by (simp_all add: nth_append less_imp_diff_less)
    have "current ! i = CHR ''-'' \<and> current ! (i - 1) \<noteq> CHR ''-''"
      using ok i(1) True free op prev unfolding adjacentOk_def a b by blast
    then show ?thesis unfolding a b .
  next
    case False
    then have eq: "i = length current" using i(2) by simp
    have a: "(current @ [ch]) ! i = ch"
      and b: "(current @ [ch]) ! (i - 1) = current ! (i - 1)"
      using i(1) eq by (simp_all add: nth_append)
    have last: "lastChar current (length current) = Some (current ! (i - 1))"
      using i(1) eq by (simp add: lastChar_def charAt_def)
    have "\<not> skipAdjacent current (length current) ch" using new free eq by simp
    then have "\<not> (isOperator ch \<and> current ! (i - 1) \<in> set ''+-*/='' \<and>
                (ch \<noteq> CHR ''-'' \<or> (current ! (i - 1) = CHR ''-'' \<and> ch = CHR ''-'')))"
      unfolding skipAdjacent_def last by simp
    then show ?thesis using op prev unfolding a b by blast
  qed
qed

lemma dfs_adjacentOk:
  "list_all (adjacentOk c)
     (results (dfs h c opts 0 [] Map.empty False \<lparr>results = [], dfsCallCount = 0\<rparr>))"
proof (rule dfs_results_inv[where Inv = "adjInv c"])
  show "greenStep c opts (adjInv c)"
    unfolding greenStep_def adjInv_def by (auto intro!: adjacentOk_append)
  show "freeStep c opts (adjInv c)"
    unfolding freeStep_def adjInv_def by (auto intro!: adjacentOk_append simp: skipChar_def)
  show "leafStep h c opts (adjInv c) (adjacentOk c)"
    unfolding leafStep_def adjInv_def by simp
qed (simp_all add: adjInv_def adjacentOk_def)

text \<open>
  C4, as amended. In every result of the search of src/app.js, an operator at a position
  that is not green-fixed does not follow an operator or the equals sign, unless it is a
  \<open>-\<close> that follows something other than \<open>-\<close>. A green-fixed character is placed
  without that test (only a fixed \<open>=\<close> is refused after an operator), so an operator at a
  fixed position can follow an operator.
\<close>

theorem generateCandidates_free_operators_not_adjacent:
  "\<forall>s \<in> set (generateCandidates h c opts).
     \<forall>i. 0 < i \<and> i < length s \<and> greenAt c i = None \<and> isOperator (s ! i) \<and>
          s ! (i - 1) \<in> set ''+-*/='' \<longrightarrow>
          s ! i = CHR ''-'' \<and> s ! (i - 1) \<noteq> CHR ''-''"
  using dfs_adjacentOk[of c h opts]
  unfolding generateCandidates_def set_sortByScore list_all_iff adjacentOk_def
  by blast

text \<open>A free position after a fixed operator: \<open>1+?1=0\<close> is completed with \<open>-\<close> only.\<close>

definition afterPlus :: constraints where
  "afterPlus =
     \<lparr>greens = [Some CHR ''1'', Some CHR ''+'', None, Some CHR ''1'', Some CHR ''='', Some CHR ''0''],
      requiredCounts = [], maxCounts = Map.empty, excluded = {},
      yellowForbiddenPositions = Map.empty\<rparr>"

lemma afterPlus_results:
  "generateCandidates (modelHost ap) afterPlus (defaultOptions 6) = [''1+-1=0'']"
  by code_simp

theorem generateCandidates_free_operators_not_adjacent_witness:
  "\<forall>ap. ''1+-1=0'' \<in> set (generateCandidates (modelHost ap) afterPlus (defaultOptions 6)) \<and>
        (0::nat) < 2 \<and> 2 < length ''1+-1=0'' \<and> greenAt afterPlus 2 = None \<and>
        isOperator (''1+-1=0'' ! 2) \<and> ''1+-1=0'' ! (2 - 1) \<in> set ''+-*/='' \<and>
        ''1+-1=0'' ! 2 = CHR ''-'' \<and> ''1+-1=0'' ! (2 - 1) \<noteq> CHR ''-''"
proof
  fix ap
  have m: "''1+-1=0'' \<in> set (generateCandidates (modelHost ap) afterPlus (defaultOptions 6))"
    by (simp add: afterPlus_results)
  have r: "(0::nat) < 2" "2 < length ''1+-1=0''" "greenAt afterPlus 2 = None"
    "isOperator (''1+-1=0'' ! 2)" "''1+-1=0'' ! (2 - 1) \<in> set ''+-*/=''"
    by (simp_all add: afterPlus_def greenAt_def charAt_def isOperator_def)
  have "''1+-1=0'' ! 2 = CHR ''-'' \<and> ''1+-1=0'' ! (2 - 1) \<noteq> CHR ''-''"
    using generateCandidates_free_operators_not_adjacent[of "modelHost ap" afterPlus "defaultOptions 6"]
      m r
    by blast
  then show "''1+-1=0'' \<in> set (generateCandidates (modelHost ap) afterPlus (defaultOptions 6)) \<and>
        (0::nat) < 2 \<and> 2 < length ''1+-1=0'' \<and> greenAt afterPlus 2 = None \<and>
        isOperator (''1+-1=0'' ! 2) \<and> ''1+-1=0'' ! (2 - 1) \<in> set ''+-*/='' \<and>
        ''1+-1=0'' ! 2 = CHR ''-'' \<and> ''1+-1=0'' ! (2 - 1) \<noteq> CHR ''-''"
    using m r by blast
qed

text \<open>
  The search of src/solver.js has no test on adjacent operators: at the free position of
  \<open>1-?1=0\<close> it places \<open>+\<close> after \<open>-\<close>, which the search of src/app.js does not.
\<close>

definition afterMinus :: constraints where
  "afterMinus =
     \<lparr>greens = [Some CHR ''1'', Some CHR ''-'', None, Some CHR ''1'', Some CHR ''='', Some CHR ''0''],
      requiredCounts = [], maxCounts = Map.empty, excluded = {},
      yellowForbiddenPositions = Map.empty\<rparr>"

lemma afterMinus_results:
  "generateCandidates_solver (modelHost ap) afterMinus (defaultOptions 6) = [''1-+1=0'', ''1-01=0'']"
  "generateCandidates (modelHost ap) afterMinus (defaultOptions 6) = [''1-01=0'']"
  by code_simp+


subsection \<open>Cancellation\<close>

lemma dfs_cancelled:
  "cancelled opts (dfsCallCount st) \<Longrightarrow>
   dfs h c opts pos current used hasEqual st = st\<lparr>dfsCallCount := dfsCallCount st + 1\<rparr>"
  by (subst dfs.simps) (simp add: Let_def)

lemma dfs_solver_cancelled:
  "cancelled opts (dfsCallCount st) \<Longrightarrow>
   dfs_solver h c opts pos current used hasEqual st = st\<lparr>dfsCallCount := dfsCallCount st + 1\<rparr>"
  by (subst dfs_solver.simps) (simp add: Let_def)

definition anyPath :: "nat \<Rightarrow> string \<Rightarrow> (char \<rightharpoonup> int) \<Rightarrow> bool \<Rightarrow> bool" where
  "anyPath pos current used hasEqual = True"

lemma dfs_appends:
  "prefix (results st) (results (dfs h c opts pos current used hasEqual st))"
  using dfs_extends[of c opts anyPath h "\<lambda>s. True" pos current used hasEqual st]
  by (auto simp: greenStep_def freeStep_def leafStep_def anyPath_def extends_def)

lemma dfs_solver_appends:
  "prefix (results st) (results (dfs_solver h c opts pos current used hasEqual st))"
  using dfs_solver_extends[of c opts anyPath h "\<lambda>s. True" pos current used hasEqual st]
  by (auto simp: greenStep_solver_def freeStep_solver_def leafStep_solver_def anyPath_def
        extends_def)

lemma mset_sortByScore: "mset (sortByScore rs) = mset rs"
  by (simp add: sortByScore_def)

lemma fold_fst:
  "(\<And>x p. x \<in> set xs \<Longrightarrow> fst (F x p) = f x (fst p)) \<Longrightarrow>
   fst (fold F xs p) = fold f xs (fst p)"
  by (induction xs arbitrary: p) auto

lemma dfs_observed_fst:
  "fst (dfs_observed h c opts pos current used hasEqual p) =
     dfs h c opts pos current used hasEqual (fst p)"
proof (induction h c opts pos current used hasEqual p rule: dfs_observed.induct)
  case (1 h c opts pos current used hasEqual p)
  let ?st1 = "(fst p)\<lparr>dfsCallCount := dfsCallCount (fst p) + 1\<rparr>"
  show ?case
  proof (cases "cancelled opts (dfsCallCount (fst p)) \<or> timedOut h opts (dfsCallCount (fst p))
                 \<or> maxResultsOf opts \<le> int (length (results (fst p)))
                 \<or> pos = length_opt opts \<or> length_opt opts < pos")
    case True
    then show ?thesis
      by (subst dfs_observed.simps, subst dfs.simps) (auto simp: Let_def)
  next
    case run: False
    show ?thesis
    proof (cases "greenAt c pos")
      case None
      let ?F = "\<lambda>ch s. if skipChar c (length_opt opts) pos current used hasEqual ch then s
                  else dfs_observed h c opts (pos + 1) (current @ [ch]) (bumpUsed used ch)
                         (hasEqual \<or> ch = CHR ''='') s"
      let ?f = "\<lambda>ch s. if skipChar c (length_opt opts) pos current used hasEqual ch then s
                  else dfs h c opts (pos + 1) (current @ [ch]) (bumpUsed used ch)
                         (hasEqual \<or> ch = CHR ''='') s"
      have step: "fst (?F ch q) = ?f ch (fst q)" if "ch \<in> set (allowedChars c)" for ch q
        using "1.IH"(1)[OF refl refl refl refl _ _ _ _ _ None that] run by simp
      have "fst (fold ?F (allowedChars c) (?st1, snd p)) = fold ?f (allowedChars c) ?st1"
        using fold_fst[of "allowedChars c" ?F ?f "(?st1, snd p)"] step by simp
      then show ?thesis using run None
        by (subst dfs_observed.simps, subst dfs.simps) (simp add: Let_def)
    next
      case (Some ch)
      show ?thesis
      proof (cases "(ch = CHR ''='' \<and> lastIsOperator current pos) \<or> overMax c (bumpUsed used ch) ch")
        case True
        then show ?thesis using run Some
          by (subst dfs_observed.simps, subst dfs.simps) (auto simp: Let_def)
      next
        case False
        have "fst (dfs_observed h c opts (pos + 1) (current @ [ch]) (bumpUsed used ch)
                     (hasEqual \<or> ch = CHR ''='') (?st1, snd p)) =
              dfs h c opts (pos + 1) (current @ [ch]) (bumpUsed used ch)
                (hasEqual \<or> ch = CHR ''='') ?st1"
          using "1.IH"(2)[OF refl refl refl refl _ _ _ _ _ Some] run False by simp
        then show ?thesis using run Some False
          by (subst dfs_observed.simps, subst dfs.simps) (auto simp: Let_def)
      qed
    qed
  qed
qed

lemma dfs_solver_observed_fst:
  "fst (dfs_solver_observed h c opts pos current used hasEqual p) =
     dfs_solver h c opts pos current used hasEqual (fst p)"
proof (induction h c opts pos current used hasEqual p rule: dfs_solver_observed.induct)
  case (1 h c opts pos current used hasEqual p)
  let ?st1 = "(fst p)\<lparr>dfsCallCount := dfsCallCount (fst p) + 1\<rparr>"
  show ?case
  proof (cases "cancelled opts (dfsCallCount (fst p)) \<or> timedOut_solver h opts (dfsCallCount (fst p))
                 \<or> maxResultsOf opts \<le> int (length (results (fst p)))
                 \<or> pos = length_opt opts \<or> length_opt opts < pos")
    case True
    then show ?thesis
      by (subst dfs_solver_observed.simps, subst dfs_solver.simps) (auto simp: Let_def)
  next
    case run: False
    show ?thesis
    proof (cases "greenAt c pos")
      case None
      let ?F = "\<lambda>ch s. if skipChar_solver c (length_opt opts) pos used hasEqual ch then s
                  else dfs_solver_observed h c opts (pos + 1) (current @ [ch]) (bumpUsed used ch)
                         (hasEqual \<or> ch = CHR ''='') s"
      let ?f = "\<lambda>ch s. if skipChar_solver c (length_opt opts) pos used hasEqual ch then s
                  else dfs_solver h c opts (pos + 1) (current @ [ch]) (bumpUsed used ch)
                         (hasEqual \<or> ch = CHR ''='') s"
      have step: "fst (?F ch q) = ?f ch (fst q)" if "ch \<in> set (allowedChars c)" for ch q
        using "1.IH"(1)[OF refl refl refl refl _ _ _ _ _ None that] run by simp
      have "fst (fold ?F (allowedChars c) (?st1, snd p)) = fold ?f (allowedChars c) ?st1"
        using fold_fst[of "allowedChars c" ?F ?f "(?st1, snd p)"] step by simp
      then show ?thesis using run None
        by (subst dfs_solver_observed.simps, subst dfs_solver.simps) (simp add: Let_def)
    next
      case (Some ch)
      show ?thesis
      proof (cases "overMax c (bumpUsed used ch) ch")
        case True
        then show ?thesis using run Some
          by (subst dfs_solver_observed.simps, subst dfs_solver.simps) (auto simp: Let_def)
      next
        case False
        have "fst (dfs_solver_observed h c opts (pos + 1) (current @ [ch]) (bumpUsed used ch)
                     (hasEqual \<or> ch = CHR ''='') (?st1, snd p)) =
              dfs_solver h c opts (pos + 1) (current @ [ch]) (bumpUsed used ch)
                (hasEqual \<or> ch = CHR ''='') ?st1"
          using "1.IH"(2)[OF refl refl refl refl _ _ _ _ _ Some] run False by simp
        then show ?thesis using run Some False
          by (subst dfs_solver_observed.simps, subst dfs_solver.simps) (auto simp: Let_def)
      qed
    qed
  qed
qed

text \<open>
  What the note holds, when the flag stays set once it is set: while it is empty no
  read has found the flag set; once it is written, some read has, and the results are
  still the ones written.
\<close>

definition recorded :: "options \<Rightarrow> observed_state \<Rightarrow> bool" where
  "recorded opts p =
     (case snd p of
        None \<Rightarrow> \<forall>m < dfsCallCount (fst p). \<not> cancelled opts m
      | Some r \<Rightarrow> results (fst p) = r \<and> (\<exists>m < dfsCallCount (fst p). cancelled opts m))"

lemma recorded_entry:
  assumes stays: "\<forall>m n. cancelled opts m \<and> m \<le> n \<longrightarrow> cancelled opts n"
    and rec: "recorded opts p"
    and run: "\<not> cancelled opts (dfsCallCount (fst p))"
  shows "snd p = None"
    and "recorded opts ((fst p)\<lparr>dfsCallCount := dfsCallCount (fst p) + 1\<rparr>, None)"
    and "recorded opts ((fst p)\<lparr>dfsCallCount := dfsCallCount (fst p) + 1,
                                results := results (fst p) @ [x]\<rparr>, None)"
proof -
  show n: "snd p = None"
  proof (cases "snd p")
    case (Some r)
    then obtain m where "m < dfsCallCount (fst p)" "cancelled opts m"
      using rec by (auto simp: recorded_def)
    then show ?thesis using stays run by (meson less_imp_le)
  qed simp
  have "\<forall>m < dfsCallCount (fst p). \<not> cancelled opts m"
    using rec n by (simp add: recorded_def)
  then have "\<forall>m < dfsCallCount (fst p) + 1. \<not> cancelled opts m"
    using run by (auto simp: less_Suc_eq)
  then show "recorded opts ((fst p)\<lparr>dfsCallCount := dfsCallCount (fst p) + 1\<rparr>, None)"
    "recorded opts ((fst p)\<lparr>dfsCallCount := dfsCallCount (fst p) + 1,
                              results := results (fst p) @ [x]\<rparr>, None)"
    by (simp_all add: recorded_def)
qed

lemma recorded_observe:
  assumes rec: "recorded opts p" and set: "cancelled opts (dfsCallCount (fst p))"
  shows "recorded opts ((fst p)\<lparr>dfsCallCount := dfsCallCount (fst p) + 1\<rparr>, observe p)"
  using rec set by (auto simp: recorded_def observe_def less_Suc_eq split: option.splits)

lemma dfs_observed_recorded:
  "\<forall>m n. cancelled opts m \<and> m \<le> n \<longrightarrow> cancelled opts n \<Longrightarrow> recorded opts p \<Longrightarrow>
   recorded opts (dfs_observed h c opts pos current used hasEqual p)"
proof (induction h c opts pos current used hasEqual p rule: dfs_observed.induct)
  case (1 h c opts pos current used hasEqual p)
  let ?st1 = "(fst p)\<lparr>dfsCallCount := dfsCallCount (fst p) + 1\<rparr>"
  note stays' = "1.prems"(1)
  note rec = "1.prems"(2)
  show ?case
  proof (cases "cancelled opts (dfsCallCount (fst p))")
    case True
    then show ?thesis using recorded_observe[OF rec True]
      by (subst dfs_observed.simps) (simp add: Let_def)
  next
    case nc: False
    note e = recorded_entry[OF stays' rec nc]
    show ?thesis
    proof (cases "timedOut h opts (dfsCallCount (fst p))
                   \<or> maxResultsOf opts \<le> int (length (results (fst p)))
                   \<or> pos = length_opt opts \<or> length_opt opts < pos")
      case True
      then show ?thesis using nc e(1) e(2) e(3)[of current]
        by (subst dfs_observed.simps) (auto simp: Let_def)
    next
      case run: False
      show ?thesis
      proof (cases "greenAt c pos")
        case None
        let ?F = "\<lambda>ch s. if skipChar c (length_opt opts) pos current used hasEqual ch then s
                    else dfs_observed h c opts (pos + 1) (current @ [ch]) (bumpUsed used ch)
                           (hasEqual \<or> ch = CHR ''='') s"
        have step: "recorded opts (?F ch q)"
          if "ch \<in> set (allowedChars c)" "recorded opts q" for ch q
          using "1.IH"(1)[OF refl refl refl refl _ _ _ _ _ None that(1) _ stays' that(2)] run nc that(2)
          by simp
        have "recorded opts (fold ?F (allowedChars c) (?st1, snd p))"
          by (rule fold_inv[where I = "recorded opts"]) (use step e in auto)
        then show ?thesis using run nc None
          by (subst dfs_observed.simps) (simp add: Let_def)
      next
        case (Some ch)
        show ?thesis
        proof (cases "(ch = CHR ''='' \<and> lastIsOperator current pos) \<or> overMax c (bumpUsed used ch) ch")
          case True
          then show ?thesis using run nc Some e(1) e(2)
            by (subst dfs_observed.simps) (auto simp: Let_def)
        next
          case False
          have "recorded opts (dfs_observed h c opts (pos + 1) (current @ [ch]) (bumpUsed used ch)
                       (hasEqual \<or> ch = CHR ''='') (?st1, snd p))"
            using "1.IH"(2)[OF refl refl refl refl _ _ _ _ _ Some _ _ stays'] run nc False e(1) e(2)
            by simp
          then show ?thesis using run nc Some False
            by (subst dfs_observed.simps) (auto simp: Let_def)
        qed
      qed
    qed
  qed
qed

lemma dfs_solver_observed_recorded:
  "\<forall>m n. cancelled opts m \<and> m \<le> n \<longrightarrow> cancelled opts n \<Longrightarrow> recorded opts p \<Longrightarrow>
   recorded opts (dfs_solver_observed h c opts pos current used hasEqual p)"
proof (induction h c opts pos current used hasEqual p rule: dfs_solver_observed.induct)
  case (1 h c opts pos current used hasEqual p)
  let ?st1 = "(fst p)\<lparr>dfsCallCount := dfsCallCount (fst p) + 1\<rparr>"
  note stays' = "1.prems"(1)
  note rec = "1.prems"(2)
  show ?case
  proof (cases "cancelled opts (dfsCallCount (fst p))")
    case True
    then show ?thesis using recorded_observe[OF rec True]
      by (subst dfs_solver_observed.simps) (simp add: Let_def)
  next
    case nc: False
    note e = recorded_entry[OF stays' rec nc]
    show ?thesis
    proof (cases "timedOut_solver h opts (dfsCallCount (fst p))
                   \<or> maxResultsOf opts \<le> int (length (results (fst p)))
                   \<or> pos = length_opt opts \<or> length_opt opts < pos")
      case True
      then show ?thesis using nc e(1) e(2) e(3)[of current]
        by (subst dfs_solver_observed.simps) (auto simp: Let_def)
    next
      case run: False
      show ?thesis
      proof (cases "greenAt c pos")
        case None
        let ?F = "\<lambda>ch s. if skipChar_solver c (length_opt opts) pos used hasEqual ch then s
                    else dfs_solver_observed h c opts (pos + 1) (current @ [ch]) (bumpUsed used ch)
                           (hasEqual \<or> ch = CHR ''='') s"
        have step: "recorded opts (?F ch q)"
          if "ch \<in> set (allowedChars c)" "recorded opts q" for ch q
          using "1.IH"(1)[OF refl refl refl refl _ _ _ _ _ None that(1) _ stays' that(2)] run nc that(2)
          by simp
        have "recorded opts (fold ?F (allowedChars c) (?st1, snd p))"
          by (rule fold_inv[where I = "recorded opts"]) (use step e in auto)
        then show ?thesis using run nc None
          by (subst dfs_solver_observed.simps) (simp add: Let_def)
      next
        case (Some ch)
        show ?thesis
        proof (cases "overMax c (bumpUsed used ch) ch")
          case True
          then show ?thesis using run nc Some e(1) e(2)
            by (subst dfs_solver_observed.simps) (auto simp: Let_def)
        next
          case False
          have "recorded opts (dfs_solver_observed h c opts (pos + 1) (current @ [ch]) (bumpUsed used ch)
                       (hasEqual \<or> ch = CHR ''='') (?st1, snd p))"
            using "1.IH"(2)[OF refl refl refl refl _ _ _ _ _ Some _ stays'] run nc False e(1) e(2)
            by simp
          then show ?thesis using run nc Some False
            by (subst dfs_solver_observed.simps) (auto simp: Let_def)
        qed
      qed
    qed
  qed
qed

lemma dfs_observed_kept:
  "snd p = Some r \<Longrightarrow> snd (dfs_observed h c opts pos current used hasEqual p) = Some r"
proof (induction h c opts pos current used hasEqual p rule: dfs_observed.induct)
  case (1 h c opts pos current used hasEqual p)
  let ?st1 = "(fst p)\<lparr>dfsCallCount := dfsCallCount (fst p) + 1\<rparr>"
  note some = "1.prems"(1)
  show ?case
  proof (cases "cancelled opts (dfsCallCount (fst p)) \<or> timedOut h opts (dfsCallCount (fst p))
                 \<or> maxResultsOf opts \<le> int (length (results (fst p)))
                 \<or> pos = length_opt opts \<or> length_opt opts < pos")
    case True
    then show ?thesis using some
      by (subst dfs_observed.simps) (auto simp: Let_def observe_def)
  next
    case run: False
    show ?thesis
    proof (cases "greenAt c pos")
      case None
      let ?F = "\<lambda>ch s. if skipChar c (length_opt opts) pos current used hasEqual ch then s
                  else dfs_observed h c opts (pos + 1) (current @ [ch]) (bumpUsed used ch)
                         (hasEqual \<or> ch = CHR ''='') s"
      have step: "snd (?F ch q) = Some r" if "ch \<in> set (allowedChars c)" "snd q = Some r" for ch q
        using "1.IH"(1)[OF refl refl refl refl _ _ _ _ _ None that(1) _ that(2)] run that(2)
        by simp
      have "snd (fold ?F (allowedChars c) (?st1, snd p)) = Some r"
        by (rule fold_inv[where I = "\<lambda>q. snd q = Some r"]) (use step some in auto)
      then show ?thesis using run None
        by (subst dfs_observed.simps) (simp add: Let_def)
    next
      case (Some ch)
      show ?thesis
      proof (cases "(ch = CHR ''='' \<and> lastIsOperator current pos) \<or> overMax c (bumpUsed used ch) ch")
        case True
        then show ?thesis using run Some some
          by (subst dfs_observed.simps) (auto simp: Let_def)
      next
        case False
        have "snd (dfs_observed h c opts (pos + 1) (current @ [ch]) (bumpUsed used ch)
                     (hasEqual \<or> ch = CHR ''='') (?st1, snd p)) = Some r"
          using "1.IH"(2)[OF refl refl refl refl _ _ _ _ _ Some] run False some by simp
        then show ?thesis using run Some False
          by (subst dfs_observed.simps) (auto simp: Let_def)
      qed
    qed
  qed
qed

lemma dfs_solver_observed_kept:
  "snd p = Some r \<Longrightarrow> snd (dfs_solver_observed h c opts pos current used hasEqual p) = Some r"
proof (induction h c opts pos current used hasEqual p rule: dfs_solver_observed.induct)
  case (1 h c opts pos current used hasEqual p)
  let ?st1 = "(fst p)\<lparr>dfsCallCount := dfsCallCount (fst p) + 1\<rparr>"
  note some = "1.prems"(1)
  show ?case
  proof (cases "cancelled opts (dfsCallCount (fst p)) \<or> timedOut_solver h opts (dfsCallCount (fst p))
                 \<or> maxResultsOf opts \<le> int (length (results (fst p)))
                 \<or> pos = length_opt opts \<or> length_opt opts < pos")
    case True
    then show ?thesis using some
      by (subst dfs_solver_observed.simps) (auto simp: Let_def observe_def)
  next
    case run: False
    show ?thesis
    proof (cases "greenAt c pos")
      case None
      let ?F = "\<lambda>ch s. if skipChar_solver c (length_opt opts) pos used hasEqual ch then s
                  else dfs_solver_observed h c opts (pos + 1) (current @ [ch]) (bumpUsed used ch)
                         (hasEqual \<or> ch = CHR ''='') s"
      have step: "snd (?F ch q) = Some r" if "ch \<in> set (allowedChars c)" "snd q = Some r" for ch q
        using "1.IH"(1)[OF refl refl refl refl _ _ _ _ _ None that(1) _ that(2)] run that(2)
        by simp
      have "snd (fold ?F (allowedChars c) (?st1, snd p)) = Some r"
        by (rule fold_inv[where I = "\<lambda>q. snd q = Some r"]) (use step some in auto)
      then show ?thesis using run None
        by (subst dfs_solver_observed.simps) (simp add: Let_def)
    next
      case (Some ch)
      show ?thesis
      proof (cases "overMax c (bumpUsed used ch) ch")
        case True
        then show ?thesis using run Some some
          by (subst dfs_solver_observed.simps) (auto simp: Let_def)
      next
        case False
        have "snd (dfs_solver_observed h c opts (pos + 1) (current @ [ch]) (bumpUsed used ch)
                     (hasEqual \<or> ch = CHR ''='') (?st1, snd p)) = Some r"
          using "1.IH"(2)[OF refl refl refl refl _ _ _ _ _ Some] run False some by simp
        then show ?thesis using run Some False
          by (subst dfs_solver_observed.simps) (auto simp: Let_def)
      qed
    qed
  qed
qed

lemma dfs_observed_first:
  "cancelled opts (dfsCallCount st) \<Longrightarrow>
   snd (dfs_observed h c opts pos current used hasEqual (st, None)) = Some (results st)"
  by (subst dfs_observed.simps) (simp add: Let_def observe_def)

lemma dfs_solver_observed_first:
  "cancelled opts (dfsCallCount st) \<Longrightarrow>
   snd (dfs_solver_observed h c opts pos current used hasEqual (st, None)) = Some (results st)"
  by (subst dfs_solver_observed.simps) (simp add: Let_def observe_def)

text \<open>
  The whole search, when the flag stays set once it is set: if no read finds the flag set
  the note stays empty, and otherwise the results at the end are the results noted.
\<close>

lemma search_observed:
  assumes "\<forall>m n. cancelled opts m \<and> m \<le> n \<longrightarrow> cancelled opts n"
  shows "case snd (dfs_observed h c opts 0 [] Map.empty False
                     (\<lparr>results = [], dfsCallCount = 0\<rparr>, None)) of
           None \<Rightarrow>
             \<forall>n < dfsCallCount (dfs h c opts 0 [] Map.empty False
                                  \<lparr>results = [], dfsCallCount = 0\<rparr>). \<not> cancelled opts n
         | Some r \<Rightarrow>
             (\<exists>n < dfsCallCount (dfs h c opts 0 [] Map.empty False
                                   \<lparr>results = [], dfsCallCount = 0\<rparr>). cancelled opts n) \<and>
             results (dfs h c opts 0 [] Map.empty False \<lparr>results = [], dfsCallCount = 0\<rparr>) = r \<and>
             generateCandidates h c opts = sortByScore r"
proof -
  let ?p = "(\<lparr>results = [], dfsCallCount = 0\<rparr>, None :: string list option)"
  have "recorded opts ?p" by (simp add: recorded_def)
  then have "recorded opts (dfs_observed h c opts 0 [] Map.empty False ?p)"
    using dfs_observed_recorded[OF assms] by blast
  then show ?thesis
    using dfs_observed_fst[of h c opts 0 "[]" Map.empty False ?p]
    by (auto simp: recorded_def generateCandidates_def split: option.splits)
qed

lemma search_solver_observed:
  assumes "\<forall>m n. cancelled opts m \<and> m \<le> n \<longrightarrow> cancelled opts n"
  shows "case snd (dfs_solver_observed h c opts 0 [] Map.empty False
                     (\<lparr>results = [], dfsCallCount = 0\<rparr>, None)) of
           None \<Rightarrow>
             \<forall>n < dfsCallCount (dfs_solver h c opts 0 [] Map.empty False
                                  \<lparr>results = [], dfsCallCount = 0\<rparr>). \<not> cancelled opts n
         | Some r \<Rightarrow>
             (\<exists>n < dfsCallCount (dfs_solver h c opts 0 [] Map.empty False
                                   \<lparr>results = [], dfsCallCount = 0\<rparr>). cancelled opts n) \<and>
             results (dfs_solver h c opts 0 [] Map.empty False
                        \<lparr>results = [], dfsCallCount = 0\<rparr>) = r \<and>
             generateCandidates_solver h c opts = sortByScore r"
proof -
  let ?p = "(\<lparr>results = [], dfsCallCount = 0\<rparr>, None :: string list option)"
  have "recorded opts ?p" by (simp add: recorded_def)
  then have "recorded opts (dfs_solver_observed h c opts 0 [] Map.empty False ?p)"
    using dfs_solver_observed_recorded[OF assms] by blast
  then show ?thesis
    using dfs_solver_observed_fst[of h c opts 0 "[]" Map.empty False ?p]
    by (auto simp: recorded_def generateCandidates_solver_def split: option.splits)
qed

text \<open>
  C9. The flag is read at the entry of each call of \<open>dfs\<close>. Once it is set and stays
  set (from the k-th read on), every call entered from then on returns at once: the
  state comes back with the call counted and nothing else changed, so no branch is
  expanded and no result accepted. No call ever removes or reorders a result: the
  results at its return start with the results at its entry. What is returned is a
  rearrangement (the sort by score) of the results at the end of the search.

  The search returns exactly what had been accepted when the cancellation was observed.
  The observed search is the search (its first component is \<open>dfs\<close>); the first call that
  finds the flag set notes the results it was entered with, and a note once made is kept.
  When the flag stays set once it is set, then either no read of the whole search finds
  it set, or the results at the end of the search are the results noted, and what
  \<open>generateCandidates\<close> returns is these results sorted. The same holds in src/solver.js,
  where the count of calls is the model's.
\<close>

theorem dfs_cancellation_keeps_results:
  "((\<forall>n \<ge> k. cancelled opts n) \<and> k \<le> dfsCallCount st \<longrightarrow>
      dfs h c opts pos current used hasEqual st = st\<lparr>dfsCallCount := dfsCallCount st + 1\<rparr> \<and>
      dfs_solver h c opts pos current used hasEqual st = st\<lparr>dfsCallCount := dfsCallCount st + 1\<rparr>) \<and>
   prefix (results st) (results (dfs h c opts pos current used hasEqual st)) \<and>
   prefix (results st) (results (dfs_solver h c opts pos current used hasEqual st)) \<and>
   mset (generateCandidates h c opts) =
     mset (results (dfs h c opts 0 [] Map.empty False \<lparr>results = [], dfsCallCount = 0\<rparr>)) \<and>
   mset (generateCandidates_solver h c opts) =
     mset (results (dfs_solver h c opts 0 [] Map.empty False \<lparr>results = [], dfsCallCount = 0\<rparr>)) \<and>
   fst (dfs_observed h c opts pos current used hasEqual (st, seen)) =
     dfs h c opts pos current used hasEqual st \<and>
   fst (dfs_solver_observed h c opts pos current used hasEqual (st, seen)) =
     dfs_solver h c opts pos current used hasEqual st \<and>
   (cancelled opts (dfsCallCount st) \<longrightarrow>
      snd (dfs_observed h c opts pos current used hasEqual (st, None)) = Some (results st) \<and>
      snd (dfs_solver_observed h c opts pos current used hasEqual (st, None)) =
        Some (results st)) \<and>
   snd (dfs_observed h c opts pos current used hasEqual (st, Some r)) = Some r \<and>
   snd (dfs_solver_observed h c opts pos current used hasEqual (st, Some r)) = Some r \<and>
   ((\<forall>m n. cancelled opts m \<and> m \<le> n \<longrightarrow> cancelled opts n) \<longrightarrow>
      (case snd (dfs_observed h c opts 0 [] Map.empty False
                   (\<lparr>results = [], dfsCallCount = 0\<rparr>, None)) of
         None \<Rightarrow>
           \<forall>n < dfsCallCount (dfs h c opts 0 [] Map.empty False
                                \<lparr>results = [], dfsCallCount = 0\<rparr>). \<not> cancelled opts n
       | Some r \<Rightarrow>
           (\<exists>n < dfsCallCount (dfs h c opts 0 [] Map.empty False
                                 \<lparr>results = [], dfsCallCount = 0\<rparr>). cancelled opts n) \<and>
           results (dfs h c opts 0 [] Map.empty False \<lparr>results = [], dfsCallCount = 0\<rparr>) = r \<and>
           generateCandidates h c opts = sortByScore r) \<and>
      (case snd (dfs_solver_observed h c opts 0 [] Map.empty False
                   (\<lparr>results = [], dfsCallCount = 0\<rparr>, None)) of
         None \<Rightarrow>
           \<forall>n < dfsCallCount (dfs_solver h c opts 0 [] Map.empty False
                                \<lparr>results = [], dfsCallCount = 0\<rparr>). \<not> cancelled opts n
       | Some r \<Rightarrow>
           (\<exists>n < dfsCallCount (dfs_solver h c opts 0 [] Map.empty False
                                 \<lparr>results = [], dfsCallCount = 0\<rparr>). cancelled opts n) \<and>
           results (dfs_solver h c opts 0 [] Map.empty False
                      \<lparr>results = [], dfsCallCount = 0\<rparr>) = r \<and>
           generateCandidates_solver h c opts = sortByScore r))"
proof -
  have a: "(\<forall>n \<ge> k. cancelled opts n) \<and> k \<le> dfsCallCount st \<longrightarrow>
      dfs h c opts pos current used hasEqual st = st\<lparr>dfsCallCount := dfsCallCount st + 1\<rparr> \<and>
      dfs_solver h c opts pos current used hasEqual st = st\<lparr>dfsCallCount := dfsCallCount st + 1\<rparr>"
    using dfs_cancelled[of opts st h c pos current used hasEqual]
      dfs_solver_cancelled[of opts st h c pos current used hasEqual]
    by simp
  have m: "mset (generateCandidates h c opts) =
             mset (results (dfs h c opts 0 [] Map.empty False \<lparr>results = [], dfsCallCount = 0\<rparr>))"
    "mset (generateCandidates_solver h c opts) =
       mset (results (dfs_solver h c opts 0 [] Map.empty False \<lparr>results = [], dfsCallCount = 0\<rparr>))"
    by (simp_all add: generateCandidates_def generateCandidates_solver_def mset_sortByScore)
  have f: "fst (dfs_observed h c opts pos current used hasEqual (st, seen)) =
             dfs h c opts pos current used hasEqual st"
    "fst (dfs_solver_observed h c opts pos current used hasEqual (st, seen)) =
       dfs_solver h c opts pos current used hasEqual st"
    using dfs_observed_fst[of h c opts pos current used hasEqual "(st, seen)"]
      dfs_solver_observed_fst[of h c opts pos current used hasEqual "(st, seen)"]
    by simp_all
  have k: "snd (dfs_observed h c opts pos current used hasEqual (st, Some r)) = Some r"
    "snd (dfs_solver_observed h c opts pos current used hasEqual (st, Some r)) = Some r"
    using dfs_observed_kept[of "(st, Some r)" r h c opts pos current used hasEqual]
      dfs_solver_observed_kept[of "(st, Some r)" r h c opts pos current used hasEqual]
    by simp_all
  show ?thesis
    using a m f k
      dfs_appends[of st h c opts pos current used hasEqual]
      dfs_solver_appends[of st h c opts pos current used hasEqual]
      dfs_observed_first[of opts st h c pos current used hasEqual]
      dfs_solver_observed_first[of opts st h c pos current used hasEqual]
      search_observed[of opts h c] search_solver_observed[of opts h c]
    by blast
qed

text \<open>
  A search with ten results, cancelled from the eleventh read of the flag on. The flag
  is first found set by the call at position 4 for \<open>0*2\<close>, when \<open>0*0=0\<close> and \<open>0*1=0\<close> have
  been accepted; the next call, at position 3 for \<open>0*3\<close>, returns at once, and the search
  returns these two results, sorted.
\<close>

definition cancelledFrom :: "nat \<Rightarrow> nat \<Rightarrow> options" where
  "cancelledFrom k len =
     \<lparr>length_opt = len, maxResults = None, timeoutMs = None,
      cancelledRef = Some (\<lambda>n. k \<le> n)\<rparr>"

definition zeroTimes :: constraints where
  "zeroTimes =
     \<lparr>greens = [Some CHR ''0'', Some CHR ''*'', None, Some CHR ''='', Some CHR ''0''],
      requiredCounts = [], maxCounts = Map.empty, excluded = {},
      yellowForbiddenPositions = Map.empty\<rparr>"

lemma zeroTimes_results:
  "generateCandidates (modelHost ap) zeroTimes (defaultOptions 5) =
     [''0*1=0'', ''0*2=0'', ''0*3=0'', ''0*4=0'', ''0*5=0'', ''0*6=0'', ''0*7=0'', ''0*8=0'',
      ''0*9=0'', ''0*0=0'']"
  "generateCandidates_solver (modelHost ap) zeroTimes (defaultOptions 5) =
     [''0*1=0'', ''0*2=0'', ''0*3=0'', ''0*4=0'', ''0*5=0'', ''0*6=0'', ''0*7=0'', ''0*8=0'',
      ''0*9=0'', ''0*0=0'']"
  by code_simp+

lemma zeroTimes_observed:
  "dfs_observed (modelHost ap) zeroTimes (cancelledFrom 10 5) 0 [] Map.empty False
     (\<lparr>results = [], dfsCallCount = 0\<rparr>, None) =
   (\<lparr>results = [''0*0=0'', ''0*1=0''], dfsCallCount = 19\<rparr>, Some [''0*0=0'', ''0*1=0''])"
  "dfs_solver_observed (modelHost ap) zeroTimes (cancelledFrom 10 5) 0 [] Map.empty False
     (\<lparr>results = [], dfsCallCount = 0\<rparr>, None) =
   (\<lparr>results = [''0*0=0'', ''0*1=0''], dfsCallCount = 23\<rparr>, Some [''0*0=0'', ''0*1=0''])"
  by code_simp+

lemma zeroTimes_sorted: "sortByScore [''0*0=0'', ''0*1=0''] = [''0*1=0'', ''0*0=0'']"
  by code_simp

theorem dfs_cancellation_keeps_results_witness:
  "\<forall>ap. (\<forall>n \<ge> 10. cancelled (cancelledFrom 10 5) n) \<and>
        (\<forall>m n. cancelled (cancelledFrom 10 5) m \<and> m \<le> n \<longrightarrow> cancelled (cancelledFrom 10 5) n) \<and>
        dfs (modelHost ap) zeroTimes (cancelledFrom 10 5) 3 ''0*3''
          (bumpUsed (bumpUsed (bumpUsed Map.empty CHR ''0'') CHR ''*'') CHR ''3'') False
          \<lparr>results = [''0*0=0'', ''0*1=0''], dfsCallCount = 11\<rparr> =
          \<lparr>results = [''0*0=0'', ''0*1=0''], dfsCallCount = 12\<rparr> \<and>
        dfs_solver (modelHost ap) zeroTimes (cancelledFrom 10 5) 3 ''0*3''
          (bumpUsed (bumpUsed (bumpUsed Map.empty CHR ''0'') CHR ''*'') CHR ''3'') False
          \<lparr>results = [''0*0=0'', ''0*1=0''], dfsCallCount = 11\<rparr> =
          \<lparr>results = [''0*0=0'', ''0*1=0''], dfsCallCount = 12\<rparr> \<and>
        snd (dfs_observed (modelHost ap) zeroTimes (cancelledFrom 10 5) 0 [] Map.empty False
               (\<lparr>results = [], dfsCallCount = 0\<rparr>, None)) = Some [''0*0=0'', ''0*1=0''] \<and>
        snd (dfs_solver_observed (modelHost ap) zeroTimes (cancelledFrom 10 5) 0 [] Map.empty
               False (\<lparr>results = [], dfsCallCount = 0\<rparr>, None)) = Some [''0*0=0'', ''0*1=0''] \<and>
        generateCandidates (modelHost ap) zeroTimes (cancelledFrom 10 5) =
          [''0*1=0'', ''0*0=0''] \<and>
        generateCandidates_solver (modelHost ap) zeroTimes (cancelledFrom 10 5) =
          [''0*1=0'', ''0*0=0''] \<and>
        generateCandidates (modelHost ap) zeroTimes (defaultOptions 5) =
          [''0*1=0'', ''0*2=0'', ''0*3=0'', ''0*4=0'', ''0*5=0'', ''0*6=0'', ''0*7=0'',
           ''0*8=0'', ''0*9=0'', ''0*0=0'']"
proof
  fix ap
  let ?u = "bumpUsed (bumpUsed (bumpUsed Map.empty CHR ''0'') CHR ''*'') CHR ''3''"
  let ?st = "\<lparr>results = [''0*0=0'', ''0*1=0''], dfsCallCount = 11\<rparr>"
  have c: "\<forall>n \<ge> 10. cancelled (cancelledFrom 10 5) n"
    "\<forall>m n. cancelled (cancelledFrom 10 5) m \<and> m \<le> n \<longrightarrow> cancelled (cancelledFrom 10 5) n"
    by (simp_all add: cancelled_def cancelledFrom_def)
  have k: "(10::nat) \<le> dfsCallCount ?st"
    by simp
  note t = dfs_cancellation_keeps_results[of 10 "cancelledFrom 10 5" ?st "modelHost ap" zeroTimes
      3 "''0*3''" ?u False]
  have per: "dfs (modelHost ap) zeroTimes (cancelledFrom 10 5) 3 ''0*3'' ?u False ?st =
               ?st\<lparr>dfsCallCount := dfsCallCount ?st + 1\<rparr>"
    "dfs_solver (modelHost ap) zeroTimes (cancelledFrom 10 5) 3 ''0*3'' ?u False ?st =
       ?st\<lparr>dfsCallCount := dfsCallCount ?st + 1\<rparr>"
    using t c(1) k by blast+
  have whole: "generateCandidates (modelHost ap) zeroTimes (cancelledFrom 10 5) =
                 sortByScore [''0*0=0'', ''0*1=0'']"
    "generateCandidates_solver (modelHost ap) zeroTimes (cancelledFrom 10 5) =
       sortByScore [''0*0=0'', ''0*1=0'']"
    using t c(2) by (simp_all add: zeroTimes_observed)
  show "(\<forall>n \<ge> 10. cancelled (cancelledFrom 10 5) n) \<and>
        (\<forall>m n. cancelled (cancelledFrom 10 5) m \<and> m \<le> n \<longrightarrow> cancelled (cancelledFrom 10 5) n) \<and>
        dfs (modelHost ap) zeroTimes (cancelledFrom 10 5) 3 ''0*3'' ?u False ?st =
          \<lparr>results = [''0*0=0'', ''0*1=0''], dfsCallCount = 12\<rparr> \<and>
        dfs_solver (modelHost ap) zeroTimes (cancelledFrom 10 5) 3 ''0*3'' ?u False ?st =
          \<lparr>results = [''0*0=0'', ''0*1=0''], dfsCallCount = 12\<rparr> \<and>
        snd (dfs_observed (modelHost ap) zeroTimes (cancelledFrom 10 5) 0 [] Map.empty False
               (\<lparr>results = [], dfsCallCount = 0\<rparr>, None)) = Some [''0*0=0'', ''0*1=0''] \<and>
        snd (dfs_solver_observed (modelHost ap) zeroTimes (cancelledFrom 10 5) 0 [] Map.empty
               False (\<lparr>results = [], dfsCallCount = 0\<rparr>, None)) = Some [''0*0=0'', ''0*1=0''] \<and>
        generateCandidates (modelHost ap) zeroTimes (cancelledFrom 10 5) =
          [''0*1=0'', ''0*0=0''] \<and>
        generateCandidates_solver (modelHost ap) zeroTimes (cancelledFrom 10 5) =
          [''0*1=0'', ''0*0=0''] \<and>
        generateCandidates (modelHost ap) zeroTimes (defaultOptions 5) =
          [''0*1=0'', ''0*2=0'', ''0*3=0'', ''0*4=0'', ''0*5=0'', ''0*6=0'', ''0*7=0'',
           ''0*8=0'', ''0*9=0'', ''0*0=0'']"
    using c per whole by (simp add: zeroTimes_observed zeroTimes_sorted zeroTimes_results)
qed
section \<open>Scenario B\<close>

lemma scenarioB_value:
  "scenarioB =
     \<lparr>greens = [None, Some CHR ''+'', None, Some CHR ''='', None],
      requiredCounts = [(CHR ''+'', 0), (CHR ''='', 0)], maxCounts = Map.empty,
      excluded = {CHR ''2'', CHR ''4''}, yellowForbiddenPositions = Map.empty\<rparr>"
  by code_simp

lemma scenarioB_solver_value:
  "scenarioB_solver =
     \<lparr>greens = [None, Some CHR ''+'', None, Some CHR ''='', None],
      requiredCounts = [(CHR ''+'', 1), (CHR ''='', 1)], maxCounts = Map.empty,
      excluded = {CHR ''2'', CHR ''4''}, yellowForbiddenPositions = Map.empty\<rparr>"
  by code_simp

text \<open>
  The whole result of the search, in the order returned. Its one entry that is not a sum
  of two digits, \<open>-+0=0\<close>, has the fixed \<open>+\<close> after a \<open>-\<close>: the host reads \<open>-+0\<close> as the
  negation of \<open>+0\<close>.
\<close>

lemma scenarioB_results:
  "generateCandidates (modelHost ap) scenarioB (defaultOptions 5) =
     [''1+5=6'', ''1+6=7'', ''1+7=8'', ''1+8=9'', ''3+5=8'', ''3+6=9'',
      ''5+1=6'', ''5+3=8'', ''6+1=7'', ''6+3=9'', ''7+1=8'', ''8+1=9'',
      ''0+1=1'', ''0+3=3'', ''0+5=5'', ''0+6=6'', ''0+7=7'', ''0+8=8'',
      ''0+9=9'', ''1+0=1'', ''3+0=3'', ''3+3=6'', ''5+0=5'', ''6+0=6'',
      ''7+0=7'', ''8+0=8'', ''9+0=9'', ''-+0=0'', ''0+0=0'']"
  unfolding scenarioB_value by code_simp

lemma scenarioB_solver_results:
  "generateCandidates_solver (modelHost ap) scenarioB_solver (defaultOptions 5) =
     [''1+5=6'', ''1+6=7'', ''1+7=8'', ''1+8=9'', ''3+5=8'', ''3+6=9'',
      ''5+1=6'', ''5+3=8'', ''6+1=7'', ''6+3=9'', ''7+1=8'', ''8+1=9'',
      ''0+1=1'', ''0+3=3'', ''0+5=5'', ''0+6=6'', ''0+7=7'', ''0+8=8'',
      ''0+9=9'', ''1+0=1'', ''3+0=3'', ''3+3=6'', ''5+0=5'', ''6+0=6'',
      ''7+0=7'', ''8+0=8'', ''9+0=9'', ''-+0=0'', ''0+0=0'']"
  unfolding scenarioB_solver_value by code_simp

text \<open>
  C3. With length 5 and the single guess \<open>2+2=4\<close> answered \<open>xgxgx\<close>, the constraints
  built exclude \<open>2\<close> and \<open>4\<close> and fix \<open>+\<close> at index 1 and \<open>=\<close> at index 3, and the search
  with the default cap of 200 returns \<open>3+3=6\<close> and no string that holds \<open>2\<close> or \<open>4\<close>; so
  for the builder and search of src/app.js, and for those of src/solver.js.
\<close>

theorem scenarioB_search:
  "\<forall>ap.
     excluded scenarioB = {CHR ''2'', CHR ''4''} \<and>
     greens scenarioB = [None, Some CHR ''+'', None, Some CHR ''='', None] \<and>
     maxResultsOf (defaultOptions 5) = 200 \<and>
     ''3+3=6'' \<in> set (generateCandidates (modelHost ap) scenarioB (defaultOptions 5)) \<and>
     list_all (\<lambda>s. CHR ''2'' \<notin> set s \<and> CHR ''4'' \<notin> set s)
       (generateCandidates (modelHost ap) scenarioB (defaultOptions 5)) \<and>
     excluded scenarioB_solver = {CHR ''2'', CHR ''4''} \<and>
     greens scenarioB_solver = [None, Some CHR ''+'', None, Some CHR ''='', None] \<and>
     ''3+3=6'' \<in> set (generateCandidates_solver (modelHost ap) scenarioB_solver (defaultOptions 5)) \<and>
     list_all (\<lambda>s. CHR ''2'' \<notin> set s \<and> CHR ''4'' \<notin> set s)
       (generateCandidates_solver (modelHost ap) scenarioB_solver (defaultOptions 5))"
  unfolding scenarioB_results scenarioB_solver_results
  by (simp add: scenarioB_value scenarioB_solver_value maxResultsOf_def defaultOptions_def)

text \<open>
  Against C4 as stated: among the results of Scenario B is \<open>-+0=0\<close>, where the operator
  \<open>+\<close> (green-fixed at index 1) comes right after the operator \<open>-\<close>.
\<close>

theorem scenarioB_adjacent_operators_counterexample:
  "\<forall>ap. ''-+0=0'' \<in> set (generateCandidates (modelHost ap) scenarioB (defaultOptions 5)) \<and>
        isOperator (''-+0=0'' ! 0) \<and> isOperator (''-+0=0'' ! 1) \<and>
        ''-+0=0'' ! 1 \<noteq> CHR ''-''"
  unfolding scenarioB_results by (simp add: isOperator_def)

section \<open>Properties of the consistency checker\<close>

text \<open>
  The violations as the specification lists them, for a guess and a pattern of its
  length: at some position, a character other than the fixed one marked green, the fixed
  character not marked green, an excluded character marked green or yellow, or a
  character forbidden there marked green (in src/solver.js: green or yellow); or some
  character marked green or yellow more often than its entry of \<open>maxCounts\<close> allows.
\<close>

definition positionConflict :: "constraints \<Rightarrow> nat \<Rightarrow> char \<Rightarrow> char \<Rightarrow> bool" where
  "positionConflict c i ch color =
     ((\<exists>f. greenAt c i = Some f \<and> f \<noteq> ch \<and> color = CHR ''g'') \<or>
      (greenAt c i = Some ch \<and> color \<noteq> CHR ''g'') \<or>
      (ch \<in> excluded c \<and> (color = CHR ''g'' \<or> color = CHR ''y'')) \<or>
      (forbiddenAt c ch i \<and> color = CHR ''g''))"

definition positionConflict_solver :: "constraints \<Rightarrow> nat \<Rightarrow> char \<Rightarrow> char \<Rightarrow> bool" where
  "positionConflict_solver c i ch color =
     ((\<exists>f. greenAt c i = Some f \<and> f \<noteq> ch \<and> color = CHR ''g'') \<or>
      (greenAt c i = Some ch \<and> color \<noteq> CHR ''g'') \<or>
      (ch \<in> excluded c \<and> (color = CHR ''g'' \<or> color = CHR ''y'')) \<or>
      (forbiddenAt c ch i \<and> (color = CHR ''g'' \<or> color = CHR ''y'')))"

definition markedCount :: "string \<Rightarrow> string \<Rightarrow> char \<Rightarrow> int" where
  "markedCount g pat ch =
     int (length (filter (\<lambda>p. fst p = ch \<and> (snd p = CHR ''g'' \<or> snd p = CHR ''y'')) (zip g pat)))"

definition capConflict :: "constraints \<Rightarrow> string \<Rightarrow> string \<Rightarrow> bool" where
  "capConflict c g pat =
     (\<exists>ch m. maxCounts c ch = Some m \<and> 0 < markedCount g pat ch \<and> m < markedCount g pat ch)"

definition violationExists :: "constraints \<Rightarrow> string \<Rightarrow> string \<Rightarrow> bool" where
  "violationExists c g pat =
     ((\<exists>i < length g. positionConflict c i (g ! i) (pat ! i)) \<or> capConflict c g pat)"

definition violationExists_solver :: "constraints \<Rightarrow> string \<Rightarrow> string \<Rightarrow> bool" where
  "violationExists_solver c g pat =
     ((\<exists>i < length g. positionConflict_solver c i (g ! i) (pat ! i)) \<or> capConflict c g pat)"

lemma firstSome_None: "firstSome xs = None \<longleftrightarrow> (\<forall>x \<in> set xs. x = None)"
  by (induction xs rule: firstSome.induct) auto

lemma positionViolation_None:
  "positionViolation c (i, ch, color) = None \<longleftrightarrow> \<not> positionConflict c i ch color"
  by (auto simp: positionViolation_def positionConflict_def fixedViolation_def
        excludedViolation_def forbiddenViolation_def split: option.splits)

lemma positionViolation_solver_None:
  "positionViolation_solver c (i, ch, color) = None \<longleftrightarrow> \<not> positionConflict_solver c i ch color"
  by (auto simp: positionViolation_solver_def positionConflict_solver_def fixedViolation_def
        excludedViolation_def forbiddenViolation_solver_def split: option.splits)

lemma set_jsEntries: "set (jsEntries kvs) = set kvs"
  by (auto simp: jsEntries_def)

text \<open>The counts kept while the guess is read.\<close>

definition countsOf :: "(char \<times> char) list \<Rightarrow> char \<Rightarrow> int" where
  "countsOf ps ch =
     int (length (filter (\<lambda>p. fst p = ch \<and> (snd p = CHR ''g'' \<or> snd p = CHR ''y'')) ps))"

lemma markedCounts_fold:
  "distinct (map fst acc) \<Longrightarrow>
   (\<forall>ch. map_of acc ch = (if 0 < n ch then Some (n ch) else None)) \<Longrightarrow>
   (\<forall>ch. 0 \<le> n ch) \<Longrightarrow>
   (let r = fold (\<lambda>p acc. if snd p = CHR ''g'' \<or> snd p = CHR ''y''
                            then AList.update (fst p) (getOr 0 acc (fst p) + 1) acc else acc) ps acc
    in distinct (map fst r) \<and>
       (\<forall>ch. map_of r ch = (if 0 < n ch + countsOf ps ch then Some (n ch + countsOf ps ch) else None)))"
proof (induction ps arbitrary: acc n)
  case Nil
  then show ?case by (simp add: countsOf_def)
next
  case (Cons p ps)
  show ?case
  proof (cases "snd p = CHR ''g'' \<or> snd p = CHR ''y''")
    case False
    then have "countsOf (p # ps) = countsOf ps" by (auto simp: countsOf_def fun_eq_iff)
    then show ?thesis using Cons.IH[OF Cons.prems] False by (simp add: Let_def)
  next
    case True
    let ?acc = "AList.update (fst p) (getOr 0 acc (fst p) + 1) acc"
    let ?n = "\<lambda>ch. if ch = fst p then n ch + 1 else n ch"
    have nonneg: "0 \<le> n (fst p)" using Cons.prems(3) by simp
    have nn: "\<forall>ch. 0 \<le> ?n ch" using Cons.prems(3) by simp
    have d: "distinct (map fst ?acc)" using Cons.prems(1) by (simp add: distinct_update)
    have g: "getOr 0 acc (fst p) = n (fst p)"
      using Cons.prems(2) nonneg by (auto simp: getOr_def split: option.splits)
    have m: "\<forall>ch. map_of ?acc ch = (if 0 < ?n ch then Some (?n ch) else None)"
      using Cons.prems(2) nonneg g by (auto simp: update_conv')
    have c: "?n ch + countsOf ps ch = n ch + countsOf (p # ps) ch" for ch
      using True by (auto simp: countsOf_def)
    show ?thesis using Cons.IH[OF d m nn] True c by (simp add: Let_def)
  qed
qed

lemma markedCounts_map_of:
  "map_of (markedCounts g pat) ch =
     (if 0 < markedCount g pat ch then Some (markedCount g pat ch) else None)"
  using markedCounts_fold[of "[]" "\<lambda>_. 0" "zip g pat"]
  by (simp add: markedCounts_def markedCount_def countsOf_def Let_def)

lemma markedCounts_distinct: "distinct (map fst (markedCounts g pat))"
  using markedCounts_fold[of "[]" "\<lambda>_. 0" "zip g pat"]
  by (simp add: markedCounts_def Let_def)

lemma markedCounts_set:
  "(ch, n) \<in> set (markedCounts g pat) \<longleftrightarrow> 0 < markedCount g pat ch \<and> n = markedCount g pat ch"
  using markedCounts_map_of[of g pat ch] markedCounts_distinct[of g pat]
  by (metis map_of_eq_Some_iff option.distinct(1) option.inject)

lemma capViolation_all_None:
  "(\<forall>kv \<in> set (jsEntries (markedCounts g pat)). capViolation c kv = None) \<longleftrightarrow>
   \<not> capConflict c g pat"
proof -
  have "(\<forall>kv \<in> set (markedCounts g pat). capViolation c kv = None) \<longleftrightarrow>
        (\<forall>ch n. (ch, n) \<in> set (markedCounts g pat) \<longrightarrow> capViolation c (ch, n) = None)"
    by auto
  also have "\<dots> \<longleftrightarrow> (\<forall>ch. 0 < markedCount g pat ch \<longrightarrow>
                          capViolation c (ch, markedCount g pat ch) = None)"
    by (simp add: markedCounts_set)
  also have "\<dots> \<longleftrightarrow> \<not> capConflict c g pat"
    by (auto simp: capViolation_def capConflict_def split: option.splits)
  finally show ?thesis by (simp add: set_jsEntries)
qed

lemma positions_all_None:
  assumes "length pat = length g"
  shows "(\<forall>p \<in> set (List.enumerate 0 (zip g pat)). f p = None) \<longleftrightarrow>
         (\<forall>i < length g. f (i, g ! i, pat ! i) = None)"
proof -
  have "set (List.enumerate 0 (zip g pat)) = (\<lambda>i. (i, g ! i, pat ! i)) ` {..<length g}"
    using assms by (auto simp: in_set_enumerate_eq image_iff)
  then show ?thesis by auto
qed

lemma firstSome_append_None:
  "firstSome (map f xs @ map h ys) = None \<longleftrightarrow>
   (\<forall>p \<in> set xs. f p = None) \<and> (\<forall>q \<in> set ys. h q = None)"
  by (auto simp: firstSome_None)

lemma checkPatternConsistency_usable:
  assumes "usablePattern g ps = Some pat"
  shows "checkPatternConsistency g ps c = Valid \<longleftrightarrow> \<not> violationExists c g pat"
    and "checkPatternConsistency_solver g ps c = Valid \<longleftrightarrow> \<not> violationExists_solver c g pat"
proof -
  have len: "length pat = length g"
    using assms by (auto simp: usablePattern_def split: option.splits if_splits)
  have a: "(\<forall>p \<in> set (List.enumerate 0 (zip g pat)). positionViolation c p = None) \<longleftrightarrow>
        \<not> (\<exists>i < length g. positionConflict c i (g ! i) (pat ! i))"
    using positions_all_None[OF len, of "positionViolation c"]
    by (simp add: positionViolation_None)
  have b: "(\<forall>p \<in> set (List.enumerate 0 (zip g pat)). positionViolation_solver c p = None) \<longleftrightarrow>
        \<not> (\<exists>i < length g. positionConflict_solver c i (g ! i) (pat ! i))"
    using positions_all_None[OF len, of "positionViolation_solver c"]
    by (simp add: positionViolation_solver_None)
  have "checkPatternConsistency g ps c = Valid \<longleftrightarrow>
        firstSome (map (positionViolation c) (List.enumerate 0 (zip g pat)) @
                   map (capViolation c) (jsEntries (markedCounts g pat))) = None"
    using assms by (simp add: checkPatternConsistency_def split: option.splits)
  then show "checkPatternConsistency g ps c = Valid \<longleftrightarrow> \<not> violationExists c g pat"
    unfolding firstSome_append_None a capViolation_all_None violationExists_def by blast
  have "checkPatternConsistency_solver g ps c = Valid \<longleftrightarrow>
        firstSome (map (positionViolation_solver c) (List.enumerate 0 (zip g pat)) @
                   map (capViolation c) (jsEntries (markedCounts g pat))) = None"
    using assms by (simp add: checkPatternConsistency_solver_def split: option.splits)
  then show "checkPatternConsistency_solver g ps c = Valid \<longleftrightarrow> \<not> violationExists_solver c g pat"
    unfolding firstSome_append_None b capViolation_all_None violationExists_solver_def by blast
qed

lemma checkPatternConsistency_unusable:
  assumes "usablePattern g ps = None"
  shows "checkPatternConsistency g ps c = Invalid LengthMismatch"
    and "checkPatternConsistency_solver g ps c = Invalid LengthMismatch"
  using assms by (simp_all add: checkPatternConsistency_def checkPatternConsistency_solver_def)

text \<open>The constraints after one guess, \<open>1+2=3\<close> answered \<open>yxxgx\<close>, as src/solver.js builds them.\<close>

definition oneYellow :: constraints where
  "oneYellow =
     buildConstraintsFromGuesses_solver
       [\<lparr>guess = ''1+2=3'', patterns = Single ''yxxgx'', solved = False\<rparr>] 5"

lemma oneYellow_value:
  "oneYellow =
     \<lparr>greens = [None, None, None, Some CHR ''='', None],
      requiredCounts = [(CHR ''1'', 1), (CHR ''='', 1)], maxCounts = Map.empty,
      excluded = {CHR ''+'', CHR ''2'', CHR ''3''},
      yellowForbiddenPositions = [CHR ''1'' \<mapsto> {0}]\<rparr>"
  by code_simp

lemma scenarioC:
  assumes "length pat = 5" and "pat ! 1 = CHR ''g''"
  shows "checkPatternConsistency ''5*5=5'' (Single pat) scenarioB =
           Invalid (FixedToOther 2 CHR ''+'' CHR ''*'')"
    and "checkPatternConsistency_solver ''5*5=5'' (Single pat) scenarioB_solver =
           Invalid (FixedToOther 2 CHR ''+'' CHR ''*'')"
proof -
  obtain a b d e f where p: "pat = [a, b, d, e, f]"
    using assms(1) by (auto simp: numeral_eq_Suc length_Suc_conv)
  then have b: "b = CHR ''g''" using assms(2) by simp
  show "checkPatternConsistency ''5*5=5'' (Single pat) scenarioB =
           Invalid (FixedToOther 2 CHR ''+'' CHR ''*'')"
    unfolding p b scenarioB_value
    by (simp add: checkPatternConsistency_def usablePattern_def firstPattern_def
          enumerate_eq_zip positionViolation_def fixedViolation_def excludedViolation_def
          forbiddenViolation_def forbiddenAt_def greenAt_def charAt_def upt_rec)
  show "checkPatternConsistency_solver ''5*5=5'' (Single pat) scenarioB_solver =
           Invalid (FixedToOther 2 CHR ''+'' CHR ''*'')"
    unfolding p b scenarioB_solver_value
    by (simp add: checkPatternConsistency_solver_def usablePattern_def firstPattern_def
          enumerate_eq_zip positionViolation_solver_def fixedViolation_def
          excludedViolation_def forbiddenViolation_solver_def forbiddenAt_def greenAt_def
          charAt_def upt_rec)
qed

text \<open>
  C7, as amended. A pattern that is empty or not of the length of the guess is rejected
  as a length mismatch. Otherwise the checker of src/app.js returns \<open>valid = false\<close>,
  with a reason, exactly when one of the listed violations exists, and \<open>valid = true\<close>
  exactly when none does; the checker of src/solver.js likewise, with a character
  forbidden at a position rejected when marked yellow there as well as green. Against the
  constraints of Scenario B, \<open>5*5=5\<close> with \<open>*\<close> marked green at index 1 is rejected with
  the reason that quotes position 2 (counted from 1), its fixed \<open>+\<close>, and \<open>*\<close>.
\<close>

theorem checkPatternConsistency_rejects_exactly_violations:
  "(usablePattern g ps = None \<longrightarrow>
      checkPatternConsistency g ps c = Invalid LengthMismatch \<and>
      checkPatternConsistency_solver g ps c = Invalid LengthMismatch) \<and>
   (usablePattern g ps = Some pat \<longrightarrow>
      ((\<exists>v. checkPatternConsistency g ps c = Invalid v) \<longleftrightarrow> violationExists c g pat) \<and>
      (checkPatternConsistency g ps c = Valid \<longleftrightarrow> \<not> violationExists c g pat) \<and>
      ((\<exists>v. checkPatternConsistency_solver g ps c = Invalid v) \<longleftrightarrow>
         violationExists_solver c g pat) \<and>
      (checkPatternConsistency_solver g ps c = Valid \<longleftrightarrow> \<not> violationExists_solver c g pat)) \<and>
   (length pat5 = 5 \<and> pat5 ! 1 = CHR ''g'' \<longrightarrow>
      checkPatternConsistency ''5*5=5'' (Single pat5) scenarioB =
        Invalid (FixedToOther 2 CHR ''+'' CHR ''*'') \<and>
      checkPatternConsistency_solver ''5*5=5'' (Single pat5) scenarioB_solver =
        Invalid (FixedToOther 2 CHR ''+'' CHR ''*''))"
proof -
  have inv: "(\<exists>v. x = Invalid v) \<longleftrightarrow> x \<noteq> Valid" for x
    by (cases x) auto
  show ?thesis
    using checkPatternConsistency_unusable[of g ps c] checkPatternConsistency_usable[of g ps pat c]
      scenarioC[of pat5]
    unfolding inv by blast
qed

theorem checkPatternConsistency_rejects_exactly_violations_witness:
  "usablePattern ''5*5=5'' (Single ''xgxgx'') = Some ''xgxgx'' \<and>
   length ''xgxgx'' = 5 \<and> ''xgxgx'' ! 1 = CHR ''g'' \<and>
   usablePattern ''5*5=5'' (Single ''xgxg'') = None \<and>
   checkPatternConsistency ''5*5=5'' (Single ''xgxg'') scenarioB = Invalid LengthMismatch \<and>
   checkPatternConsistency ''5*5=5'' (Single ''xgxgx'') scenarioB =
     Invalid (FixedToOther 2 CHR ''+'' CHR ''*'') \<and>
   violationExists scenarioB ''5*5=5'' ''xgxgx'' \<and>
   checkPatternConsistency_solver ''5*5=5'' (Single ''xgxgx'') scenarioB_solver =
     Invalid (FixedToOther 2 CHR ''+'' CHR ''*'') \<and>
   violationExists_solver scenarioB_solver ''5*5=5'' ''xgxgx''"
proof -
  have u: "usablePattern ''5*5=5'' (Single ''xgxgx'') = Some ''xgxgx''"
    "usablePattern ''5*5=5'' (Single ''xgxg'') = None"
    "length ''xgxgx'' = 5" "''xgxgx'' ! 1 = CHR ''g''"
    by (simp_all add: usablePattern_def firstPattern_def)
  show ?thesis
    using u
      checkPatternConsistency_rejects_exactly_violations[of "''5*5=5''" "Single ''xgxgx''"
        scenarioB "''xgxgx''" "''xgxgx''"]
      checkPatternConsistency_rejects_exactly_violations[of "''5*5=5''" "Single ''xgxgx''"
        scenarioB_solver "''xgxgx''" "''xgxgx''"]
      checkPatternConsistency_rejects_exactly_violations[of "''5*5=5''" "Single ''xgxg''"
        scenarioB "''xgxg''" "''xgxgx''"]
    by (metis verdict.distinct(1))
qed

text \<open>
  Against C7 as stated: after \<open>1+2=3\<close> answered \<open>yxxgx\<close>, the guess \<open>1*5=6\<close> answered
  \<open>yxxgx\<close> shows none of the listed violations and the checker of src/app.js accepts it,
  but the checker of src/solver.js rejects it, for the yellow \<open>1\<close> at the position where
  \<open>1\<close> is forbidden; and a pattern of four marks is rejected for its length alone.
\<close>

theorem checkPatternConsistency_other_rejections_counterexample:
  "\<not> violationExists oneYellow ''1*5=6'' ''yxxgx'' \<and>
   checkPatternConsistency ''1*5=6'' (Single ''yxxgx'') oneYellow = Valid \<and>
   checkPatternConsistency_solver ''1*5=6'' (Single ''yxxgx'') oneYellow =
     Invalid (ForbiddenMarked CHR ''1'' 1) \<and>
   \<not> violationExists oneYellow ''1*5=6'' ''yxxg'' \<and>
   checkPatternConsistency ''1*5=6'' (Single ''yxxg'') oneYellow = Invalid LengthMismatch"
proof -
  have a: "checkPatternConsistency ''1*5=6'' (Single ''yxxgx'') oneYellow = Valid"
    "checkPatternConsistency_solver ''1*5=6'' (Single ''yxxgx'') oneYellow =
       Invalid (ForbiddenMarked CHR ''1'' 1)"
    "checkPatternConsistency ''1*5=6'' (Single ''yxxg'') oneYellow = Invalid LengthMismatch"
    unfolding oneYellow_value by code_simp+
  have u: "usablePattern ''1*5=6'' (Single ''yxxgx'') = Some ''yxxgx''"
    by (simp add: usablePattern_def firstPattern_def)
  have b: "\<not> violationExists oneYellow ''1*5=6'' ''yxxgx''"
    using checkPatternConsistency_usable(1)[OF u, of oneYellow] a(1) by simp
  have c: "\<not> violationExists oneYellow ''1*5=6'' ''yxxg''"
    unfolding oneYellow_value
    by (auto simp: violationExists_def positionConflict_def capConflict_def greenAt_def
          charAt_def forbiddenAt_def less_Suc_eq numeral_eq_Suc)
  show ?thesis using a b c by simp
qed

text \<open>
  C10. In 4-target mode only the first pattern is read.
\<close>

theorem checkPatternConsistency_reads_first_pattern:
  "checkPatternConsistency g (Multi [p0, p1, p2, p3]) c = checkPatternConsistency g (Single p0) c \<and>
   checkPatternConsistency g (Multi [p0, p1, p2, p3]) c =
     checkPatternConsistency g (Multi [p0, q1, q2, q3]) c \<and>
   checkPatternConsistency_solver g (Multi [p0, p1, p2, p3]) c =
     checkPatternConsistency_solver g (Single p0) c \<and>
   checkPatternConsistency_solver g (Multi [p0, p1, p2, p3]) c =
     checkPatternConsistency_solver g (Multi [p0, q1, q2, q3]) c"
  by (simp add: checkPatternConsistency_def checkPatternConsistency_solver_def
        usablePattern_def firstPattern_def charAt_def)

theorem checkPatternConsistency_reads_first_pattern_witness:
  "checkPatternConsistency ''5*5=5'' (Multi [''xxxgx'', ''xgxgx'', ''ggggg'', ''yyyyy'']) scenarioB =
     Valid \<and>
   checkPatternConsistency ''5*5=5'' (Single ''xgxgx'') scenarioB =
     Invalid (FixedToOther 2 CHR ''+'' CHR ''*'')"
proof -
  have "checkPatternConsistency ''5*5=5'' (Single ''xxxgx'') scenarioB = Valid"
    unfolding scenarioB_value by code_simp
  then show ?thesis
    using checkPatternConsistency_reads_first_pattern[of "''5*5=5''" "''xxxgx''" "''xgxgx''"
        "''ggggg''" "''yyyyy''" scenarioB]
      scenarioC(1)[of "''xgxgx''"]
    by simp
qed

section \<open>Properties of the constraint builder\<close>

subsection \<open>Objects as entry lists\<close>

lemma distinct_jsEntries:
  assumes "distinct (map fst kvs)"
  shows "distinct (map fst (jsEntries kvs))"
proof -
  let ?d = "filter (\<lambda>kv. isDigit (fst kv)) kvs" and ?o = "filter (\<lambda>kv. \<not> isDigit (fst kv)) kvs"
  have d: "distinct (map fst ?d)" and o: "distinct (map fst ?o)"
    using assms by (simp_all add: distinct_map_filter)
  have "mset (map fst (sort_key (\<lambda>kv. (of_char (fst kv) :: nat)) ?d)) = mset (map fst ?d)"
    by simp
  then have s: "distinct (map fst (sort_key (\<lambda>kv. (of_char (fst kv) :: nat)) ?d))"
    using d by (metis distinct_count_atmost_1 set_mset_mset)
  have "fst ` set ?d \<inter> fst ` set ?o = {}" by auto
  then show ?thesis using s o by (auto simp: jsEntries_def)
qed

lemma map_of_jsEntries:
  "distinct (map fst kvs) \<Longrightarrow> map_of (jsEntries kvs) = map_of kvs"
  using distinct_jsEntries[of kvs] set_jsEntries[of kvs]
  by (simp add: map_of_inject_set)

text \<open>
  A loop over the entries of an object, each step of which rewrites the binding of the
  entry's key in some component \<open>M\<close> of the state: afterwards each key of the object has
  been rewritten once, by its own entry.
\<close>

lemma fold_entries:
  assumes "distinct (map fst es)"
    and "\<And>kv s. M (step kv s) = (M s)(fst kv := F kv (M s (fst kv)))"
  shows "M (fold step es s) k = (case map_of es k of None \<Rightarrow> M s k | Some v \<Rightarrow> F (k, v) (M s k))"
  using assms(1)
proof (induction es arbitrary: s)
  case Nil
  then show ?case by simp
next
  case (Cons e es)
  obtain a b where e: "e = (a, b)" by (cases e)
  have notin: "map_of es a = None" using Cons.prems e by (simp add: map_of_eq_None_iff)
  have "M (fold step (e # es) s) k =
        (case map_of es k of None \<Rightarrow> M (step e s) k | Some v \<Rightarrow> F (k, v) (M (step e s) k))"
    using Cons.IH[of "step e s"] Cons.prems by simp
  then show ?case using notin e assms(2)[of e s]
    by (auto split: option.splits)
qed

lemma fold_entries_frame:
  assumes "\<And>kv s. N (step kv s) = N s"
  shows "N (fold step es s) = N s"
  by (induction es arbitrary: s) (simp_all add: assms)

subsection \<open>The colours of one guess\<close>

definition pairCount :: "(char \<times> char) list \<Rightarrow> char \<Rightarrow> char \<Rightarrow> int" where
  "pairCount ps ch color = int (count_list ps (ch, color))"

definition colorTally :: "(char \<times> char) list \<Rightarrow> char \<Rightarrow> colorCount" where
  "colorTally ps ch =
     \<lparr>green = pairCount ps ch CHR ''g'', yellow = pairCount ps ch CHR ''y'',
      gray = pairCount ps ch CHR ''x''\<rparr>"

lemma countColor_fold:
  assumes "distinct (map fst acc)"
    and "\<forall>ch. map_of acc ch = (if ch \<in> fst ` set qs then Some (colorTally qs ch) else None)"
  shows "distinct (map fst (fold countColor ps acc)) \<and>
         (\<forall>ch. map_of (fold countColor ps acc) ch =
               (if ch \<in> fst ` set (qs @ ps) then Some (colorTally (qs @ ps) ch) else None))"
  using assms
proof (induction ps arbitrary: acc qs)
  case Nil
  then show ?case by simp
next
  case (Cons p ps)
  obtain a col where p: "p = (a, col)" by (cases p)
  let ?acc = "countColor p acc"
  have d: "distinct (map fst ?acc)"
    using Cons.prems(1) by (simp add: countColor_def Let_def distinct_update)
  have e: "getOr \<lparr>green = 0, yellow = 0, gray = 0\<rparr> acc a = colorTally qs a"
    using Cons.prems(2)
    by (auto simp: getOr_def colorTally_def pairCount_def count_list_0_iff image_iff
          split: option.splits)
  have m: "\<forall>ch. map_of ?acc ch =
             (if ch \<in> fst ` set (qs @ [p]) then Some (colorTally (qs @ [p]) ch) else None)"
    using Cons.prems(2) e
    by (auto simp: countColor_def Let_def update_conv' p colorTally_def pairCount_def)
  show ?case using Cons.IH[OF d m] by simp
qed

lemma charColors_map_of:
  "map_of (charColors g pat) ch =
     (if ch \<in> fst ` set (zip g pat) then Some (colorTally (zip g pat) ch) else None)"
  using countColor_fold[of "[]" "[]" "zip g pat"] by (simp add: charColors_def)

lemma charColors_distinct: "distinct (map fst (charColors g pat))"
  using countColor_fold[of "[]" "[]" "zip g pat"] by (simp add: charColors_def)

subsection \<open>What one guess asks for\<close>

text \<open>
  The marks of a record that the builder reads (none for a record that is solved or
  whose pattern is unusable), the requirement a single guess gives for a character (its
  greens and yellows in that guess), and its grays there.
\<close>

definition marks :: "guessRecord \<Rightarrow> (char \<times> char) list" where
  "marks r =
     (if solved r then []
      else (case usablePattern (guess r) (patterns r) of
              None \<Rightarrow> []
            | Some pat \<Rightarrow> zip (guess r) pat))"

definition required1 :: "guessRecord \<Rightarrow> char \<Rightarrow> int" where
  "required1 r ch = pairCount (marks r) ch CHR ''g'' + pairCount (marks r) ch CHR ''y''"

definition gray1 :: "guessRecord \<Rightarrow> char \<Rightarrow> int" where
  "gray1 r ch = pairCount (marks r) ch CHR ''x''"

definition requirementsOf :: "guessRecord list \<Rightarrow> char \<Rightarrow> int list" where
  "requirementsOf gs ch = filter (\<lambda>n. 0 < n) (map (\<lambda>r. required1 r ch) gs)"

definition capsOf :: "guessRecord list \<Rightarrow> char \<Rightarrow> int list" where
  "capsOf gs ch =
     map (\<lambda>r. required1 r ch) (filter (\<lambda>r. 0 < gray1 r ch \<and> 0 < required1 r ch) gs)"

lemma recordCounts_distinct:
  "distinct (map fst (charRequirements b)) \<Longrightarrow> distinct (map fst (charMaxLimits b)) \<Longrightarrow>
   distinct (map fst (charRequirements (fold recordCounts es b))) \<and>
   distinct (map fst (charMaxLimits (fold recordCounts es b)))"
  by (induction es arbitrary: b)
     (simp_all add: recordCounts_def Let_def pushTo_def distinct_update)

lemma recordCounts_requirements:
  assumes "distinct (map fst es)"
  shows "map_of (charRequirements (fold recordCounts es b)) ch =
         (case map_of es ch of
            None \<Rightarrow> map_of (charRequirements b) ch
          | Some e \<Rightarrow>
              if 0 < green e + yellow e
              then Some (getOr [] (charRequirements b) ch @ [green e + yellow e])
              else map_of (charRequirements b) ch)"
proof -
  let ?F = "\<lambda>kv old. if 0 < green (snd kv) + yellow (snd kv)
                       then Some ((case old of None \<Rightarrow> [] | Some xs \<Rightarrow> xs) @
                                  [green (snd kv) + yellow (snd kv)])
                       else old"
  have step: "map_of (charRequirements (recordCounts kv s)) =
              (map_of (charRequirements s))(fst kv := ?F kv (map_of (charRequirements s) (fst kv)))"
    for kv s
    by (auto simp: recordCounts_def Let_def pushTo_def update_conv' getOr_def fun_eq_iff)
  show ?thesis
    using fold_entries[where M = "\<lambda>s. map_of (charRequirements s)" and step = recordCounts
        and F = ?F, OF assms step, of b ch]
    by (auto simp: getOr_def split: option.splits)
qed

lemma recordCounts_limits:
  assumes "distinct (map fst es)"
  shows "map_of (charMaxLimits (fold recordCounts es b)) ch =
         (case map_of es ch of
            None \<Rightarrow> map_of (charMaxLimits b) ch
          | Some e \<Rightarrow>
              if 0 < gray e \<and> 0 < green e + yellow e
              then Some (getOr [] (charMaxLimits b) ch @ [green e + yellow e])
              else map_of (charMaxLimits b) ch)"
proof -
  let ?F = "\<lambda>kv old. if 0 < gray (snd kv) \<and> 0 < green (snd kv) + yellow (snd kv)
                       then Some ((case old of None \<Rightarrow> [] | Some xs \<Rightarrow> xs) @
                                  [green (snd kv) + yellow (snd kv)])
                       else old"
  have step: "map_of (charMaxLimits (recordCounts kv s)) =
              (map_of (charMaxLimits s))(fst kv := ?F kv (map_of (charMaxLimits s) (fst kv)))"
    for kv s
    by (auto simp: recordCounts_def Let_def pushTo_def update_conv' getOr_def fun_eq_iff)
  show ?thesis
    using fold_entries[where M = "\<lambda>s. map_of (charMaxLimits s)" and step = recordCounts
        and F = ?F, OF assms step, of b ch]
    by (auto simp: getOr_def split: option.splits)
qed

lemma recordCounts_cons: "cons (fold recordCounts es b) = cons b"
  by (rule fold_entries_frame) (simp add: recordCounts_def Let_def)

lemma pairCount_notin: "ch \<notin> fst ` set ps \<Longrightarrow> pairCount ps ch color = 0"
  by (force simp: pairCount_def count_list_0_iff)

lemma addGuess_requirements:
  assumes "distinct (map fst (charRequirements b))" "distinct (map fst (charMaxLimits b))"
  shows "distinct (map fst (charRequirements (addGuess r b)))"
    and "distinct (map fst (charMaxLimits (addGuess r b)))"
    and "map_of (charRequirements (addGuess r b)) ch =
           (if 0 < required1 r ch then Some (getOr [] (charRequirements b) ch @ [required1 r ch])
            else map_of (charRequirements b) ch)"
    and "map_of (charMaxLimits (addGuess r b)) ch =
           (if 0 < gray1 r ch \<and> 0 < required1 r ch
            then Some (getOr [] (charMaxLimits b) ch @ [required1 r ch])
            else map_of (charMaxLimits b) ch)"
proof -
  show "distinct (map fst (charRequirements (addGuess r b)))"
    "distinct (map fst (charMaxLimits (addGuess r b)))"
    using assms recordCounts_distinct[OF assms]
    by (auto simp: addGuess_def Let_def split: option.splits)
  show "map_of (charRequirements (addGuess r b)) ch =
           (if 0 < required1 r ch then Some (getOr [] (charRequirements b) ch @ [required1 r ch])
            else map_of (charRequirements b) ch)"
  proof (cases "solved r")
    case True
    then show ?thesis by (simp add: addGuess_def required1_def marks_def pairCount_def)
  next
    case False
    show ?thesis
    proof (cases "usablePattern (guess r) (patterns r)")
      case None
      then show ?thesis using False by (simp add: addGuess_def required1_def marks_def pairCount_def)
    next
      case (Some pat)
      have m: "marks r = zip (guess r) pat" using False Some by (simp add: marks_def)
      show ?thesis
        using False Some
          recordCounts_requirements[OF distinct_jsEntries[OF charColors_distinct[of "guess r" pat]],
            of b ch]
        by (auto simp: addGuess_def Let_def map_of_jsEntries charColors_distinct
              charColors_map_of required1_def m colorTally_def pairCount_notin)
    qed
  qed
  show "map_of (charMaxLimits (addGuess r b)) ch =
           (if 0 < gray1 r ch \<and> 0 < required1 r ch
            then Some (getOr [] (charMaxLimits b) ch @ [required1 r ch])
            else map_of (charMaxLimits b) ch)"
  proof (cases "solved r")
    case True
    then show ?thesis by (simp add: addGuess_def required1_def marks_def pairCount_def)
  next
    case False
    show ?thesis
    proof (cases "usablePattern (guess r) (patterns r)")
      case None
      then show ?thesis using False by (simp add: addGuess_def required1_def marks_def pairCount_def)
    next
      case (Some pat)
      have m: "marks r = zip (guess r) pat" using False Some by (simp add: marks_def)
      show ?thesis
        using False Some
          recordCounts_limits[OF distinct_jsEntries[OF charColors_distinct[of "guess r" pat]],
            of b ch]
        by (auto simp: addGuess_def Let_def map_of_jsEntries charColors_distinct
              charColors_map_of required1_def gray1_def m colorTally_def pairCount_notin)
    qed
  qed
qed

subsection \<open>The whole history\<close>

lemma placeColor_frame:
  "requiredCounts (fold (placeColor cc) ps c) = requiredCounts c \<and>
   maxCounts (fold (placeColor cc) ps c) = maxCounts c"
  by (induction ps arbitrary: c) (simp_all add: placeColor_def Let_def)

lemma addGuess_frame:
  "requiredCounts (cons (addGuess r b)) = requiredCounts (cons b) \<and>
   maxCounts (cons (addGuess r b)) = maxCounts (cons b)"
  by (simp add: addGuess_def Let_def placeColor_frame recordCounts_cons split: option.splits)

lemma fold_addGuess_frame:
  "requiredCounts (cons (fold addGuess gs b)) = requiredCounts (cons b) \<and>
   maxCounts (cons (fold addGuess gs b)) = maxCounts (cons b)"
  by (induction gs arbitrary: b) (simp_all add: addGuess_frame)

definition listsAre ::
  "(char \<times> int list) list \<Rightarrow> (char \<Rightarrow> int list) \<Rightarrow> bool" where
  "listsAre kvs f =
     (distinct (map fst kvs) \<and>
      (\<forall>ch. map_of kvs ch = (if f ch = [] then None else Some (f ch))))"

lemma listsAre_getOr: "listsAre kvs f \<Longrightarrow> getOr [] kvs ch = f ch"
  by (auto simp: listsAre_def getOr_def split: option.splits)

lemma fold_addGuess_lists:
  assumes "listsAre (charRequirements b) (requirementsOf hs)"
    and "listsAre (charMaxLimits b) (capsOf hs)"
  shows "listsAre (charRequirements (fold addGuess gs b)) (requirementsOf (hs @ gs)) \<and>
         listsAre (charMaxLimits (fold addGuess gs b)) (capsOf (hs @ gs))"
  using assms
proof (induction gs arbitrary: b hs)
  case Nil
  then show ?case by simp
next
  case (Cons r gs)
  have d: "distinct (map fst (charRequirements b))" "distinct (map fst (charMaxLimits b))"
    using Cons.prems by (simp_all add: listsAre_def)
  have a: "listsAre (charRequirements (addGuess r b)) (requirementsOf (hs @ [r]))"
    unfolding listsAre_def
    using addGuess_requirements(1,3)[OF d, of r] Cons.prems(1) listsAre_getOr[OF Cons.prems(1)]
    by (auto simp: requirementsOf_def listsAre_def)
  have b: "listsAre (charMaxLimits (addGuess r b)) (capsOf (hs @ [r]))"
    unfolding listsAre_def
    using addGuess_requirements(2,4)[OF d, of r] Cons.prems(2) listsAre_getOr[OF Cons.prems(2)]
    by (auto simp: capsOf_def listsAre_def)
  show ?case using Cons.IH[OF a b] by simp
qed

lemma history_lists:
  "listsAre
     (charRequirements (fold addGuess gs
        \<lparr>cons = emptyConstraints len, charRequirements = [], charMaxLimits = []\<rparr>))
     (requirementsOf gs) \<and>
   listsAre
     (charMaxLimits (fold addGuess gs
        \<lparr>cons = emptyConstraints len, charRequirements = [], charMaxLimits = []\<rparr>))
     (capsOf gs)"
  using fold_addGuess_lists[of "\<lparr>cons = emptyConstraints len, charRequirements = [],
      charMaxLimits = []\<rparr>" "[]" gs]
  by (simp add: listsAre_def requirementsOf_def capsOf_def)

subsection \<open>The aggregation and the two corrections\<close>

lemma maxima_map_of:
  assumes "distinct (map fst es)"
  shows "map_of (fold (\<lambda>kv acc. AList.update (fst kv) (mathMax (snd kv)) acc) es []) ch =
         map_option mathMax (map_of es ch)"
  using fold_entries[where M = map_of
      and step = "\<lambda>kv acc. AList.update (fst kv) (mathMax (snd kv)) acc"
      and F = "\<lambda>kv old. Some (mathMax (snd kv))", OF assms, of "[]" ch]
  by (auto simp: update_conv' split: option.splits)

lemma maxima_distinct:
  "distinct (map fst acc) \<Longrightarrow>
   distinct (map fst (fold (\<lambda>kv acc. AList.update (fst kv) (mathMax (snd kv)) acc) es acc))"
  by (induction es arbitrary: acc) (simp_all add: distinct_update)

lemma minima_map_of:
  assumes "distinct (map fst es)"
  shows "fold (\<lambda>kv m. m(fst kv \<mapsto> mathMin (snd kv))) es Map.empty ch =
         map_option mathMin (map_of es ch)"
  using fold_entries[where M = "\<lambda>m. m"
      and step = "\<lambda>kv m. m(fst kv \<mapsto> mathMin (snd kv))"
      and F = "\<lambda>kv old. Some (mathMin (snd kv))", OF assms, of Map.empty ch]
  by (auto split: option.splits)

definition fixedCount :: "constraints \<Rightarrow> char \<Rightarrow> int" where
  "fixedCount c ch = int (count_list (greens c) (Some ch))"

lemma greenCounts_fold:
  assumes "distinct (map fst acc)"
    and "\<forall>ch. map_of acc ch = (if 0 < n ch then Some (n ch) else None)"
    and "\<forall>ch. 0 \<le> n ch"
  shows "distinct (map fst (fold (\<lambda>g acc. case g of None \<Rightarrow> acc
                 | Some ch \<Rightarrow> AList.update ch (getOr 0 acc ch + 1) acc) gs acc)) \<and>
         (\<forall>ch. map_of (fold (\<lambda>g acc. case g of None \<Rightarrow> acc
                 | Some ch \<Rightarrow> AList.update ch (getOr 0 acc ch + 1) acc) gs acc) ch =
               (if 0 < n ch + int (count_list gs (Some ch))
                then Some (n ch + int (count_list gs (Some ch))) else None))"
  using assms
proof (induction gs arbitrary: acc n)
  case Nil
  then show ?case by simp
next
  case (Cons g gs)
  show ?case
  proof (cases g)
    case None
    then show ?thesis using Cons.IH[OF Cons.prems] by simp
  next
    case (Some a)
    let ?acc = "AList.update a (getOr 0 acc a + 1) acc"
    let ?n = "\<lambda>ch. if ch = a then n ch + 1 else n ch"
    have d: "distinct (map fst ?acc)" using Cons.prems(1) by (simp add: distinct_update)
    have nonneg: "0 \<le> n a" using Cons.prems(3) by simp
    have g: "getOr 0 acc a = n a"
      using Cons.prems(2) nonneg by (auto simp: getOr_def split: option.splits)
    have m: "\<forall>ch. map_of ?acc ch = (if 0 < ?n ch then Some (?n ch) else None)"
      using Cons.prems(2) nonneg g by (auto simp: update_conv')
    have nn: "\<forall>ch. 0 \<le> ?n ch" using Cons.prems(3) by simp
    have c: "?n ch + int (count_list gs (Some ch)) = n ch + int (count_list (g # gs) (Some ch))"
      for ch
      using Some by simp
    show ?thesis using Cons.IH[OF d m nn] Some c by simp
  qed
qed

lemma greenCounts_map_of:
  "map_of (greenCounts gs) ch =
     (if 0 < int (count_list gs (Some ch)) then Some (int (count_list gs (Some ch))) else None)"
  using greenCounts_fold[of "[]" "\<lambda>_. 0" gs] by (simp add: greenCounts_def)

lemma greenCounts_distinct: "distinct (map fst (greenCounts gs))"
  using greenCounts_fold[of "[]" "\<lambda>_. 0" gs] by (simp add: greenCounts_def)

lemma subtractGreens_map_of:
  assumes "distinct (map fst gc)"
  shows "map_of (subtractGreens gc rc) ch =
         (case map_of gc ch of
            None \<Rightarrow> map_of rc ch
          | Some k \<Rightarrow> map_option (\<lambda>r. max 0 (r - k)) (map_of rc ch))"
proof -
  let ?step = "\<lambda>kv acc. case map_of acc (fst kv) of
                 None \<Rightarrow> acc
               | Some r \<Rightarrow> AList.update (fst kv) (max 0 (r - snd kv)) acc"
  have step: "map_of (?step kv s) =
              (map_of s)(fst kv := map_option (\<lambda>r. max 0 (r - snd kv)) (map_of s (fst kv)))"
    for kv :: "char \<times> int" and s
    by (auto simp: update_conv' fun_eq_iff split: option.splits)
  show ?thesis
    unfolding subtractGreens_def
    using fold_entries[where M = map_of and step = ?step
        and F = "\<lambda>kv old. map_option (\<lambda>r. max 0 (r - snd kv)) old",
        OF distinct_jsEntries[OF assms] step, of rc ch]
    by (simp add: map_of_jsEntries assms split: option.splits)
qed

lemma subtractGreens_distinct:
  "distinct (map fst rc) \<Longrightarrow> distinct (map fst (subtractGreens gc rc))"
proof -
  have "distinct (map fst rc) \<Longrightarrow>
        distinct (map fst (fold (\<lambda>kv acc. case map_of acc (fst kv) of
                 None \<Rightarrow> acc
               | Some r \<Rightarrow> AList.update (fst kv) (max 0 (r - snd kv)) acc) es rc))"
    for es :: "(char \<times> int) list"
    by (induction es arbitrary: rc) (auto simp: distinct_update split: option.splits)
  then show "distinct (map fst rc) \<Longrightarrow> distinct (map fst (subtractGreens gc rc))"
    by (simp add: subtractGreens_def)
qed

lemma dropRequired_eq:
  "dropRequired gc rc ex =
     ex - {ch. \<exists>n. (ch, n) \<in> set rc \<and> (0 < n \<or> 0 < getOr 0 gc ch)}"
proof -
  have "fold (\<lambda>kv acc. if 0 < snd kv \<or> 0 < getOr 0 gc (fst kv) then acc - {fst kv} else acc) es ex =
        ex - {ch. \<exists>n. (ch, n) \<in> set es \<and> (0 < n \<or> 0 < getOr 0 gc ch)}"
    for es :: "(char \<times> int) list"
    by (induction es arbitrary: ex) auto
  then show ?thesis by (simp add: dropRequired_def set_jsEntries)
qed

subsection \<open>The constraints built\<close>

lemma build_requiredCounts:
  "distinct (map fst (requiredCounts (buildConstraintsFromGuesses gs len)))"
  "map_of (requiredCounts (buildConstraintsFromGuesses gs len)) ch =
     (if requirementsOf gs ch = [] then None
      else Some (max 0 (mathMax (requirementsOf gs ch) -
                        fixedCount (buildConstraintsFromGuesses gs len) ch)))"
proof -
  let ?b = "fold addGuess gs \<lparr>cons = emptyConstraints len, charRequirements = [],
              charMaxLimits = []\<rparr>"
  let ?rc0 = "fold (\<lambda>kv acc. AList.update (fst kv) (mathMax (snd kv)) acc)
                (jsEntries (charRequirements ?b)) []"
  let ?gc = "greenCounts (greens (cons ?b))"
  have rq: "listsAre (charRequirements ?b) (requirementsOf gs)"
    using history_lists[of gs len] by simp
  then have d: "distinct (map fst (charRequirements ?b))" by (simp add: listsAre_def)
  have e: "requiredCounts (cons ?b) = []"
    using fold_addGuess_frame[of gs] by (simp add: emptyConstraints_def)
  have rc: "requiredCounts (buildConstraintsFromGuesses gs len) = subtractGreens ?gc ?rc0"
    by (simp add: buildConstraintsFromGuesses_def Let_def e)
  have g: "greens (buildConstraintsFromGuesses gs len) = greens (cons ?b)"
    by (simp add: buildConstraintsFromGuesses_def Let_def)
  show "distinct (map fst (requiredCounts (buildConstraintsFromGuesses gs len)))"
    unfolding rc by (intro subtractGreens_distinct maxima_distinct) simp
  have m0: "map_of ?rc0 ch = (if requirementsOf gs ch = [] then None
                              else Some (mathMax (requirementsOf gs ch)))"
    using maxima_map_of[OF distinct_jsEntries[OF d], of ch] rq
    by (simp add: map_of_jsEntries d listsAre_def)
  have pos: "0 \<le> mathMax (requirementsOf gs ch)" if "requirementsOf gs ch \<noteq> []"
  proof -
    from that obtain x xs where x: "requirementsOf gs ch = x # xs"
      by (cases "requirementsOf gs ch") auto
    then have "0 < x" by (metis filter_eq_ConsD requirementsOf_def)
    moreover have "x \<le> Max (set (x # xs))" by (rule Max_ge) simp_all
    then have "x \<le> fold max xs x" unfolding Max.set_eq_fold .
    ultimately have "0 \<le> fold max xs x" by simp
    then show ?thesis using x by simp
  qed
  show "map_of (requiredCounts (buildConstraintsFromGuesses gs len)) ch =
     (if requirementsOf gs ch = [] then None
      else Some (max 0 (mathMax (requirementsOf gs ch) -
                        fixedCount (buildConstraintsFromGuesses gs len) ch)))"
    unfolding rc subtractGreens_map_of[OF greenCounts_distinct] greenCounts_map_of m0
      fixedCount_def g
    using pos by (auto simp: count_list_0_iff)
qed

lemma build_maxCounts:
  "maxCounts (buildConstraintsFromGuesses gs len) ch =
     (if capsOf gs ch = [] then None else Some (mathMin (capsOf gs ch)))"
proof -
  let ?b = "fold addGuess gs \<lparr>cons = emptyConstraints len, charRequirements = [],
              charMaxLimits = []\<rparr>"
  have lm: "listsAre (charMaxLimits ?b) (capsOf gs)"
    using history_lists[of gs len] by simp
  then have d: "distinct (map fst (charMaxLimits ?b))" by (simp add: listsAre_def)
  have e: "maxCounts (cons ?b) = Map.empty"
    using fold_addGuess_frame[of gs] by (simp add: emptyConstraints_def)
  have "maxCounts (buildConstraintsFromGuesses gs len) =
        fold (\<lambda>kv m. m(fst kv \<mapsto> mathMin (snd kv))) (jsEntries (charMaxLimits ?b)) Map.empty"
    by (simp add: buildConstraintsFromGuesses_def Let_def e)
  then show ?thesis
    using minima_map_of[OF distinct_jsEntries[OF d], of ch] lm
    by (simp add: map_of_jsEntries d listsAre_def)
qed

lemma mathMax_Max: "xs \<noteq> [] \<Longrightarrow> mathMax xs = Max (set xs)"
proof (cases xs)
  case (Cons a list)
  then show ?thesis using Max.set_eq_fold[of a list] by simp
qed simp

lemma mathMin_Min: "xs \<noteq> [] \<Longrightarrow> mathMin xs = Min (set xs)"
proof (cases xs)
  case (Cons a list)
  then show ?thesis using Min.set_eq_fold[of a list] by simp
qed simp

lemma requirementsOf_Max:
  assumes "\<exists>r \<in> set gs. 0 < required1 r ch"
  shows "requirementsOf gs ch \<noteq> []"
    and "mathMax (requirementsOf gs ch) = Max ((\<lambda>r. required1 r ch) ` set gs)"
proof -
  let ?A = "(\<lambda>r. required1 r ch) ` set gs"
  let ?B = "{n \<in> ?A. 0 < n}"
  have s: "set (requirementsOf gs ch) = ?B" by (auto simp: requirementsOf_def)
  have ne: "?B \<noteq> {}" using assms by auto
  then show n: "requirementsOf gs ch \<noteq> []" using s by auto
  have finA: "finite ?A" and finB: "finite ?B" by simp_all
  obtain y where y: "y \<in> ?B" using ne by blast
  have neA: "?A \<noteq> {}" using assms by auto
  have le: "y \<le> Max ?A" using y finA by simp
  have ypos: "0 < y" using y by simp
  have "0 < Max ?A" using le ypos by linarith
  then have "Max ?A \<in> ?B" using Max_in[OF finA neA] by simp
  then have "Max ?A \<le> Max ?B" using finB by simp
  moreover have "Max ?B \<le> Max ?A" using ne finA by (intro Max_mono) auto
  ultimately show "mathMax (requirementsOf gs ch) = Max ?A"
    using mathMax_Max[OF n] s by simp
qed

lemma requirementsOf_empty:
  "\<not> (\<exists>r \<in> set gs. 0 < required1 r ch) \<Longrightarrow> requirementsOf gs ch = []"
  by (auto simp: requirementsOf_def filter_empty_conv)

lemma capsOf_set:
  "set (capsOf gs ch) =
     (\<lambda>r. required1 r ch) ` {r \<in> set gs. 0 < gray1 r ch \<and> 0 < required1 r ch}"
  by (auto simp: capsOf_def)

lemma capsOf_empty:
  "capsOf gs ch = [] \<longleftrightarrow> \<not> (\<exists>r \<in> set gs. 0 < gray1 r ch \<and> 0 < required1 r ch)"
  by (auto simp: capsOf_def filter_empty_conv)

lemma buildConstraintsFromGuesses_counts_aux:
  "(\<exists>r \<in> set gs. 0 < required1 r ch) \<Longrightarrow>
   map_of (requiredCounts (buildConstraintsFromGuesses gs len)) ch \<noteq> None"
  using build_requiredCounts(2)[of gs len ch] requirementsOf_Max(1)[of gs ch] by simp

text \<open>
  The counts in the constraints that \<open>buildConstraintsFromGuesses\<close> of src/app.js returns,
  for any history: for a character that some guess marks green or yellow, \<open>requiredCounts\<close>
  holds the greatest single-guess requirement (the greens and yellows of the character
  within one guess), less the number of positions fixed to the character, and not below 0;
  for another character it has no entry. \<open>maxCounts\<close> holds, for a character that some guess marks
  gray next to a green or yellow of it, the least of the requirements of those guesses;
  for another character it has no entry.
\<close>

theorem buildConstraintsFromGuesses_counts:
  "(if \<exists>r \<in> set gs. 0 < required1 r ch
    then map_of (requiredCounts (buildConstraintsFromGuesses gs len)) ch =
           Some (max 0 (Max ((\<lambda>r. required1 r ch) ` set gs) -
                        fixedCount (buildConstraintsFromGuesses gs len) ch))
    else map_of (requiredCounts (buildConstraintsFromGuesses gs len)) ch = None) \<and>
   (if \<exists>r \<in> set gs. 0 < gray1 r ch \<and> 0 < required1 r ch
    then maxCounts (buildConstraintsFromGuesses gs len) ch =
           Some (Min ((\<lambda>r. required1 r ch) `
                        {r \<in> set gs. 0 < gray1 r ch \<and> 0 < required1 r ch}))
    else maxCounts (buildConstraintsFromGuesses gs len) ch = None)"
proof -
  have a: "map_of (requiredCounts (buildConstraintsFromGuesses gs len)) ch =
           Some (max 0 (Max ((\<lambda>r. required1 r ch) ` set gs) -
                        fixedCount (buildConstraintsFromGuesses gs len) ch))"
    if "\<exists>r \<in> set gs. 0 < required1 r ch"
    using build_requiredCounts(2)[of gs len ch] requirementsOf_Max[OF that] by simp
  have b: "map_of (requiredCounts (buildConstraintsFromGuesses gs len)) ch = None"
    if "\<not> (\<exists>r \<in> set gs. 0 < required1 r ch)"
    using build_requiredCounts(2)[of gs len ch] requirementsOf_empty[OF that] by simp
  have c: "maxCounts (buildConstraintsFromGuesses gs len) ch =
           Some (Min ((\<lambda>r. required1 r ch) `
                        {r \<in> set gs. 0 < gray1 r ch \<and> 0 < required1 r ch}))"
    if "\<exists>r \<in> set gs. 0 < gray1 r ch \<and> 0 < required1 r ch"
  proof -
    have n: "capsOf gs ch \<noteq> []" using that capsOf_empty[of gs ch] by blast
    show ?thesis
      using build_maxCounts[of gs len ch] n mathMin_Min[OF n] capsOf_set[of gs ch] by simp
  qed
  have d: "maxCounts (buildConstraintsFromGuesses gs len) ch = None"
    if "\<not> (\<exists>r \<in> set gs. 0 < gray1 r ch \<and> 0 < required1 r ch)"
    using build_maxCounts[of gs len ch] that capsOf_empty[of gs ch] by simp
  show ?thesis using a b c d by presburger
qed

subsection \<open>Excluded characters\<close>

lemma set_arraySet: "set (arraySet xs i v) \<subseteq> insert (Some v) (insert None (set xs))"
  using set_update_subset_insert[of xs i "Some v"]
  by (auto simp: arraySet_def)

lemma placeColor_greens:
  "Some ch \<in> set (greens (fold (placeColor cc) ps c)) \<Longrightarrow>
   Some ch \<in> set (greens c) \<or> (\<exists>i. (i, ch, CHR ''g'') \<in> set ps)"
proof (induction ps arbitrary: c)
  case Nil
  then show ?case by simp
next
  case (Cons p ps)
  obtain i a col where p: "p = (i, a, col)" by (cases p)
  from Cons.IH[OF Cons.prems[simplified]]
  consider "Some ch \<in> set (greens (placeColor cc p c))" | "\<exists>i. (i, ch, CHR ''g'') \<in> set ps"
    by blast
  then show ?case
  proof cases
    case 1
    then show ?thesis
      using set_arraySet[of "greens c" i a]
      by (auto simp: placeColor_def Let_def p split: if_splits)
  next
    case 2
    then show ?thesis by auto
  qed
qed

lemma addGuess_greens:
  assumes "Some ch \<in> set (greens (cons (addGuess r b)))"
  shows "Some ch \<in> set (greens (cons b)) \<or> 0 < required1 r ch"
proof (cases "solved r \<or> usablePattern (guess r) (patterns r) = None")
  case True
  then have "addGuess r b = b" by (auto simp: addGuess_def)
  then show ?thesis using assms by simp
next
  case False
  then obtain pat where u: "usablePattern (guess r) (patterns r) = Some pat" and ns: "\<not> solved r"
    by auto
  have "Some ch \<in> set (greens (fold (placeColor (charColors (guess r) pat))
                 (List.enumerate 0 (zip (guess r) pat)) (cons b)))"
    using assms u ns by (simp add: addGuess_def Let_def recordCounts_cons)
  then consider "Some ch \<in> set (greens (cons b))"
    | i where "(i, ch, CHR ''g'') \<in> set (List.enumerate 0 (zip (guess r) pat))"
    using placeColor_greens by blast
  then show ?thesis
  proof cases
    case 1
    then show ?thesis by simp
  next
    case 2
    then have "i < length (zip (guess r) pat) \<and> zip (guess r) pat ! i = (ch, CHR ''g'')"
      by (simp add: in_set_enumerate_eq)
    then have "(ch, CHR ''g'') \<in> set (zip (guess r) pat)"
      using nth_mem[of i "zip (guess r) pat"] by simp
    then have "(ch, CHR ''g'') \<in> set (marks r)"
      using u ns by (simp add: marks_def)
    then have "count_list (marks r) (ch, CHR ''g'') \<noteq> 0"
      by (simp add: count_list_0_iff)
    then have "0 < pairCount (marks r) ch CHR ''g''"
      by (simp add: pairCount_def)
    moreover have "0 \<le> pairCount (marks r) ch CHR ''y''"
      by (simp add: pairCount_def)
    ultimately show ?thesis
      by (simp add: required1_def)
  qed
qed

lemma fold_addGuess_greens:
  "Some ch \<in> set (greens (cons (fold addGuess gs b))) \<Longrightarrow>
   Some ch \<in> set (greens (cons b)) \<or> (\<exists>r \<in> set gs. 0 < required1 r ch)"
proof (induction gs arbitrary: b)
  case Nil
  then show ?case by simp
next
  case (Cons r gs)
  from Cons.IH[OF Cons.prems[simplified]] addGuess_greens[of ch r b]
  show ?case by auto
qed

lemma build_greens_required:
  assumes "Some ch \<in> set (greens (buildConstraintsFromGuesses gs len))"
  shows "\<exists>r \<in> set gs. 0 < required1 r ch"
proof -
  have "Some ch \<in> set (greens (cons (fold addGuess gs
          \<lparr>cons = emptyConstraints len, charRequirements = [], charMaxLimits = []\<rparr>)))"
    using assms by (simp add: buildConstraintsFromGuesses_def Let_def)
  then show ?thesis
    using fold_addGuess_greens[of ch gs "\<lparr>cons = emptyConstraints len, charRequirements = [],
        charMaxLimits = []\<rparr>"]
    by (simp add: emptyConstraints_def)
qed

lemma build_excluded:
  assumes "(ch, n) \<in> set (requiredCounts (buildConstraintsFromGuesses gs len))"
    and "0 < n \<or> 0 < fixedCount (buildConstraintsFromGuesses gs len) ch"
  shows "ch \<notin> excluded (buildConstraintsFromGuesses gs len)"
proof -
  let ?b = "fold addGuess gs \<lparr>cons = emptyConstraints len, charRequirements = [],
              charMaxLimits = []\<rparr>"
  let ?gc = "greenCounts (greens (cons ?b))"
  let ?rc = "subtractGreens ?gc
               (fold (\<lambda>kv acc. AList.update (fst kv) (mathMax (snd kv)) acc)
                  (jsEntries (charRequirements ?b)) (requiredCounts (cons ?b)))"
  have rc: "requiredCounts (buildConstraintsFromGuesses gs len) = ?rc"
    by (simp add: buildConstraintsFromGuesses_def Let_def)
  have ex: "excluded (buildConstraintsFromGuesses gs len) =
            dropRequired ?gc ?rc (excluded (cons ?b))"
    by (simp add: buildConstraintsFromGuesses_def Let_def)
  have g: "getOr 0 ?gc ch = fixedCount (buildConstraintsFromGuesses gs len) ch"
    by (simp add: getOr_def greenCounts_map_of fixedCount_def buildConstraintsFromGuesses_def
          Let_def)
  have "(ch, n) \<in> set ?rc \<and> (0 < n \<or> 0 < getOr 0 ?gc ch)"
    using assms unfolding rc g by simp
  then show ?thesis unfolding ex dropRequired_eq by blast
qed

text \<open>
  In the constraints that \<open>buildConstraintsFromGuesses\<close> of src/app.js returns, for
  any history, no character with a positive entry of \<open>requiredCounts\<close> and no character
  that is fixed at a position is excluded.
\<close>

theorem buildConstraintsFromGuesses_excluded_not_required:
  "((\<exists>n. (ch, n) \<in> set (requiredCounts (buildConstraintsFromGuesses gs len)) \<and> 0 < n) \<or>
    Some ch \<in> set (greens (buildConstraintsFromGuesses gs len))) \<longrightarrow>
   ch \<notin> excluded (buildConstraintsFromGuesses gs len)"
proof
  let ?C = "buildConstraintsFromGuesses gs len"
  assume "(\<exists>n. (ch, n) \<in> set (requiredCounts ?C) \<and> 0 < n) \<or> Some ch \<in> set (greens ?C)"
  then consider n where "(ch, n) \<in> set (requiredCounts ?C)" "0 < n"
    | "Some ch \<in> set (greens ?C)" by blast
  then show "ch \<notin> excluded ?C"
  proof cases
    case 1
    then show ?thesis using build_excluded[of ch n gs len] by simp
  next
    case 2
    then have f: "0 < fixedCount ?C ch"
      by (simp add: fixedCount_def count_list_0_iff zero_less_iff_neq_zero)
    have "\<exists>r \<in> set gs. 0 < required1 r ch" using build_greens_required[OF 2] .
    then have "map_of (requiredCounts ?C) ch \<noteq> None"
      using buildConstraintsFromGuesses_counts_aux[of gs ch len] by auto
    then obtain n where "(ch, n) \<in> set (requiredCounts ?C)"
      by (auto dest: map_of_SomeD)
    then show ?thesis using f build_excluded[of ch n gs len] by simp
  qed
qed


theorem buildConstraintsFromGuesses_counts_witness:
  "(\<exists>r \<in> set scenarioB_history. 0 < required1 r CHR ''+'') \<and>
   map_of (requiredCounts (buildConstraintsFromGuesses scenarioB_history 5)) CHR ''+'' =
     Some (max 0 (Max ((\<lambda>r. required1 r CHR ''+'') ` set scenarioB_history) -
                  fixedCount (buildConstraintsFromGuesses scenarioB_history 5) CHR ''+'')) \<and>
   map_of (requiredCounts (buildConstraintsFromGuesses scenarioB_history 5)) CHR ''+'' = Some 0"
proof -
  have e: "\<exists>r \<in> set scenarioB_history. 0 < required1 r CHR ''+''"
    by (simp add: scenarioB_history_def required1_def marks_def pairCount_def
          usablePattern_def firstPattern_def)
  have v: "map_of (requiredCounts (buildConstraintsFromGuesses scenarioB_history 5)) CHR ''+'' =
             Some 0"
    using scenarioB_value unfolding scenarioB_def by simp
  show ?thesis
    using buildConstraintsFromGuesses_counts[of scenarioB_history "CHR ''+''" 5] e v
    by (simp only: if_True simp_thms)
qed

subsection \<open>The builder of src/solver.js\<close>

text \<open>
  Two guesses that each show one yellow \<open>1\<close> and the green \<open>=\<close>.
\<close>

definition twoYellows :: "guessRecord list" where
  "twoYellows =
     [\<lparr>guess = ''1+4=5'', patterns = Single ''yxxgx'', solved = False\<rparr>,
      \<lparr>guess = ''1+6=7'', patterns = Single ''yxxgx'', solved = False\<rparr>]"

text \<open>
  A guess that shows \<open>1\<close> green at index 2, then a guess whose only \<open>1\<close> is gray.
\<close>

definition grayAfterGreen :: "guessRecord list" where
  "grayAfterGreen =
     [\<lparr>guess = ''4-1=5'', patterns = Single ''xxggx'', solved = False\<rparr>,
      \<lparr>guess = ''1+2=3'', patterns = Single ''xxxgx'', solved = False\<rparr>]"

lemma twoYellows_value:
  "buildConstraintsFromGuesses twoYellows 5 =
     \<lparr>greens = [None, None, None, Some CHR ''='', None],
      requiredCounts = [(CHR ''1'', 1), (CHR ''='', 0)],
      maxCounts = Map.empty,
      excluded = {CHR ''+'', CHR ''4'', CHR ''5'', CHR ''6'', CHR ''7''},
      yellowForbiddenPositions = [CHR ''1'' \<mapsto> {0}]\<rparr>"
  by code_simp

lemma twoYellows_solver_value:
  "buildConstraintsFromGuesses_solver twoYellows 5 =
     \<lparr>greens = [None, None, None, Some CHR ''='', None],
      requiredCounts = [(CHR ''1'', 2), (CHR ''='', 2)],
      maxCounts = Map.empty,
      excluded = {CHR ''+'', CHR ''4'', CHR ''5'', CHR ''6'', CHR ''7''},
      yellowForbiddenPositions = [CHR ''1'' \<mapsto> {0}]\<rparr>"
  by code_simp

lemma twoYellows_solver_results:
  "generateCandidates_solver (modelHost ap) (buildConstraintsFromGuesses_solver twoYellows 5)
     (defaultOptions 5) = []"
  unfolding twoYellows_solver_value by code_simp

lemma twoYellows_required:
  "Max ((\<lambda>r. required1 r CHR ''1'') ` set twoYellows) = 1"
  "Max ((\<lambda>r. required1 r CHR ''='') ` set twoYellows) = 1"
  by (simp_all add: twoYellows_def required1_def marks_def pairCount_def usablePattern_def
        firstPattern_def)

text \<open>
  C5. On the history \<open>1+4=5\<close>, \<open>1+6=7\<close>, both answered \<open>yxxgx\<close>, the greatest single-guess
  requirement is 1 for \<open>1\<close> and for \<open>=\<close>, and one position is fixed to \<open>=\<close>, so that the
  required counts are 1 and 0, which is what the builder of src/app.js returns. The builder
  of src/solver.js adds one at every green and yellow mark of every guess and subtracts
  nothing: it returns 2 for each, and with two \<open>=\<close> required its search returns no string.
\<close>

theorem buildConstraintsFromGuesses_solver_sums_requirements:
  "requiredCounts (buildConstraintsFromGuesses_solver twoYellows 5) =
     [(CHR ''1'', 2), (CHR ''='', 2)] \<and>
   max 0 (Max ((\<lambda>r. required1 r CHR ''1'') ` set twoYellows) -
          fixedCount (buildConstraintsFromGuesses_solver twoYellows 5) CHR ''1'') = 1 \<and>
   max 0 (Max ((\<lambda>r. required1 r CHR ''='') ` set twoYellows) -
          fixedCount (buildConstraintsFromGuesses_solver twoYellows 5) CHR ''='') = 0 \<and>
   requiredCounts (buildConstraintsFromGuesses twoYellows 5) =
     [(CHR ''1'', 1), (CHR ''='', 0)] \<and>
   (\<forall>ap. generateCandidates_solver (modelHost ap)
           (buildConstraintsFromGuesses_solver twoYellows 5) (defaultOptions 5) = [])"
  using twoYellows_solver_results
  by (simp add: twoYellows_solver_value twoYellows_value twoYellows_required fixedCount_def)

lemma grayAfterGreen_value:
  "buildConstraintsFromGuesses grayAfterGreen 5 =
     \<lparr>greens = [None, None, Some CHR ''1'', Some CHR ''='', None],
      requiredCounts = [(CHR ''1'', 0), (CHR ''='', 0)],
      maxCounts = Map.empty,
      excluded = {CHR ''4'', CHR ''-'', CHR ''5'', CHR ''+'', CHR ''2'', CHR ''3''},
      yellowForbiddenPositions = Map.empty\<rparr>"
  by code_simp

lemma grayAfterGreen_solver_value:
  "buildConstraintsFromGuesses_solver grayAfterGreen 5 =
     \<lparr>greens = [None, None, Some CHR ''1'', Some CHR ''='', None],
      requiredCounts = [(CHR ''1'', 1), (CHR ''='', 2)],
      maxCounts = Map.empty,
      excluded = {CHR ''4'', CHR ''-'', CHR ''5'', CHR ''1'', CHR ''+'', CHR ''2'', CHR ''3''},
      yellowForbiddenPositions = Map.empty\<rparr>"
  by code_simp

lemma grayAfterGreen_accepted:
  "checkPatternConsistency_solver ''1+2=3'' (Single ''xxxgx'')
     (buildConstraintsFromGuesses_solver [hd grayAfterGreen] 5) = Valid"
  "checkPatternConsistency ''1+2=3'' (Single ''xxxgx'')
     (buildConstraintsFromGuesses [hd grayAfterGreen] 5) = Valid"
  by code_simp+

theorem buildConstraintsFromGuesses_excluded_not_required_witness:
  "Some CHR ''1'' \<in> set (greens (buildConstraintsFromGuesses grayAfterGreen 5)) \<and>
   CHR ''1'' \<notin> excluded (buildConstraintsFromGuesses grayAfterGreen 5)"
proof -
  have g: "Some CHR ''1'' \<in> set (greens (buildConstraintsFromGuesses grayAfterGreen 5))"
    unfolding grayAfterGreen_value by simp
  show ?thesis
    using buildConstraintsFromGuesses_excluded_not_required[of "CHR ''1''" grayAfterGreen 5] g
    by blast
qed

text \<open>
  C6. On the history \<open>4-1=5\<close> answered \<open>xxggx\<close>, then \<open>1+2=3\<close> answered \<open>xxxgx\<close> (an answer
  that the checker lets through), the builder of src/solver.js returns constraints in which
  \<open>1\<close> is fixed at index 2, is required once and is excluded: it adds a character that a
  guess shows gray only to \<open>excluded\<close> and never takes one out. The builder of src/app.js
  takes \<open>1\<close> out of \<open>excluded\<close>.
\<close>

theorem buildConstraintsFromGuesses_solver_excludes_required:
  "Some CHR ''1'' \<in> set (greens (buildConstraintsFromGuesses_solver grayAfterGreen 5)) \<and>
   (CHR ''1'', 1) \<in> set (requiredCounts (buildConstraintsFromGuesses_solver grayAfterGreen 5)) \<and>
   CHR ''1'' \<in> excluded (buildConstraintsFromGuesses_solver grayAfterGreen 5) \<and>
   checkPatternConsistency_solver ''1+2=3'' (Single ''xxxgx'')
     (buildConstraintsFromGuesses_solver [hd grayAfterGreen] 5) = Valid \<and>
   CHR ''1'' \<notin> excluded (buildConstraintsFromGuesses grayAfterGreen 5)"
  using grayAfterGreen_accepted(1)
  by (simp add: grayAfterGreen_solver_value grayAfterGreen_value)
text \<open>
  C8, as amended. \<open>isValidEquation\<close> accepts a string only if it has at least five
  characters, each one of the fifteen of the alphabet. It does not know the length of
  the session: it accepts an equation of 22 characters.
\<close>

theorem isValidEquation_length_alphabet:
  "isValidEquation ev s \<Longrightarrow> 5 \<le> length s \<and> set s \<subseteq> set ''0123456789+-*/=''"
proof -
  assume v: "isValidEquation ev s"
  have short: "\<not> isValidEquation ev s" if "length s < 5"
    using that by (simp add: isValidEquation_def)
  have other: "\<not> isValidEquation ev s" if "\<not> matchesAlphabet s"
    using that by (simp add: isValidEquation_def)
  have "matchesAlphabet s" using v other by blast
  then have "set s \<subseteq> set ''0123456789+-*/=''"
    unfolding matchesAlphabet_def list_all_iff by blast
  moreover have "5 \<le> length s" using v short by fastforce
  ultimately show ?thesis by blast
qed

theorem isValidEquation_length_alphabet_witness:
  "\<forall>ap. isValidEquation (jsReturn ap) ''3+3=6'' \<and> 5 \<le> length ''3+3=6'' \<and>
        set ''3+3=6'' \<subseteq> set ''0123456789+-*/=''"
proof
  fix ap
  have "isValidEquation (jsReturn ap) ''3+3=6''" by code_simp
  then show "isValidEquation (jsReturn ap) ''3+3=6'' \<and> 5 \<le> length ''3+3=6'' \<and>
        set ''3+3=6'' \<subseteq> set ''0123456789+-*/=''"
    using isValidEquation_length_alphabet[of "jsReturn ap" "''3+3=6''"] by blast
qed

theorem isValidEquation_session_length_counterexample:
  "\<forall>ap. isValidEquation (jsReturn ap) ''1+1+1+1+1+1+1+1+1+1=10'' \<and>
        20 < length ''1+1+1+1+1+1+1+1+1+1=10''"
proof
  fix ap
  have "isValidEquation (jsReturn ap) ''1+1+1+1+1+1+1+1+1+1=10''" by code_simp
  then show "isValidEquation (jsReturn ap) ''1+1+1+1+1+1+1+1+1+1=10'' \<and>
        20 < length ''1+1+1+1+1+1+1+1+1+1=10''" by simp
qed

end
